theory Spec2Isabelle
  imports Main "HOL-Library.Word" "HOL-Library.Signed_Division"
begin

section \<open>Configuration loading (package main: registerFlag, Config, validate, loadConfig)\<close>

subsection \<open>Errors\<close>

text \<open>
  Go errors as values. \<open>Errorf\<close> is \<^verbatim>\<open>fmt.Errorf\<close> with a plain message, \<open>Wrapf\<close> is
  \<^verbatim>\<open>fmt.Errorf("...: %w", err)\<close>, and \<open>joinError\<close> is what \<^verbatim>\<open>errors.Join\<close> returns.
  A nil error is \<open>None\<close>.
\<close>

datatype error = Errorf string | Wrapf string error | joinError "error list"

text \<open>
  \<^verbatim>\<open>errors.Join(errs...)\<close> discards the nil arguments; it returns nil when none is left and
  otherwise an error holding the remaining ones, in order (an argument that is itself a
  join is kept as one element: Join does not flatten).
\<close>

definition errors_Join :: "error option list \<Rightarrow> error option" where
  "errors_Join errs =
     (let es = List.map_filter (\<lambda>e. e) errs
      in if es = [] then None else Some (joinError es))"

text \<open>
  The sub-errors an error reports, each by its message: a join reports those of its
  elements, in order (\<^verbatim>\<open>Error()\<close> prints them one per line); any other error is one
  sub-error, and a wrapped error's message is the prefix followed by the message of the
  error it wraps.
\<close>

fun subErrors :: "error \<Rightarrow> string list" where
  "subErrors (Errorf m) = [m]"
| "subErrors (Wrapf m e) = [m @ concat (subErrors e)]"
| "subErrors (joinError es) = concat (map subErrors es)"

subsection \<open>The Config struct and pointers to its string fields\<close>

record Config =
  CollectorGRPCURL :: string
  CollectorHTTPURL :: string
  ServiceName :: string
  PprofURL :: string
  MetricsPort :: "64 word"
  TracerPort :: "64 word"
  LoggerPort :: "64 word"

text \<open>
  \<^verbatim>\<open>loadConfig\<close> takes the address of four string fields of the Config it is given
  (\<^verbatim>\<open>&cfg.CollectorGRPCURL\<close>, ...). A Config lives at an address of the store; a string
  pointer is the address of a Config together with the field it points at.
\<close>

datatype cfgfield = F_CollectorGRPCURL | F_CollectorHTTPURL | F_ServiceName | F_PprofURL

type_synonym strptr = "nat \<times> cfgfield"

fun readField :: "cfgfield \<Rightarrow> Config \<Rightarrow> string" where
  "readField F_CollectorGRPCURL c = CollectorGRPCURL c"
| "readField F_CollectorHTTPURL c = CollectorHTTPURL c"
| "readField F_ServiceName c = ServiceName c"
| "readField F_PprofURL c = PprofURL c"

fun writeField :: "cfgfield \<Rightarrow> string \<Rightarrow> Config \<Rightarrow> Config" where
  "writeField F_CollectorGRPCURL v c = c\<lparr>CollectorGRPCURL := v\<rparr>"
| "writeField F_CollectorHTTPURL v c = c\<lparr>CollectorHTTPURL := v\<rparr>"
| "writeField F_ServiceName v c = c\<lparr>ServiceName := v\<rparr>"
| "writeField F_PprofURL v c = c\<lparr>PprofURL := v\<rparr>"

subsection \<open>The process state\<close>

text \<open>
  What \<^verbatim>\<open>godotenv.Load\<close> makes of a file: an error (the file cannot be read or does not
  parse), or the key/value pairs it holds.
\<close>

datatype dotenv = LoadFails error | Pairs "string \<rightharpoonup> string"

text \<open>
  The state \<^verbatim>\<open>loadConfig\<close> reads and writes:
  \<^item> \<open>environ\<close>: the process environment (\<^verbatim>\<open>os.Getenv\<close>, \<^verbatim>\<open>os.Setenv\<close>);
  \<^item> \<open>files\<close>: the files \<^verbatim>\<open>os.Stat\<close> finds, by path;
  \<^item> \<open>args\<close>: the command line (\<^verbatim>\<open>os.Args[1:]\<close>) as the flag parser reads it, a list of
    \<^verbatim>\<open>-name=value\<close> pairs in order;
  \<^item> \<open>registeredFlags\<close>: the package variable of that name, a \<^verbatim>\<open>map[string]bool\<close>
    (a missing key reads false);
  \<^item> \<open>formal\<close>: the flags defined on \<^verbatim>\<open>flag.CommandLine\<close>, each with the variable it is
    bound to;
  \<^item> \<open>heap\<close>: the Config structs, by address;
  \<^item> \<open>stringVarCalls\<close> and \<open>parseCalls\<close>: a log of the calls of \<^verbatim>\<open>flag.StringVar\<close> (the
    flag names, oldest first) and the number of calls of \<^verbatim>\<open>flag.Parse\<close>.
\<close>

record process =
  environ :: "string \<rightharpoonup> string"
  files :: "string \<rightharpoonup> dotenv"
  args :: "(string \<times> string) list"
  registeredFlags :: "string \<Rightarrow> bool"
  formal :: "string \<rightharpoonup> strptr"
  heap :: "nat \<Rightarrow> Config"
  stringVarCalls :: "string list"
  parseCalls :: nat

text \<open>
  A call returns, or the process ends inside it: \<^verbatim>\<open>flag.Parse\<close> on the command line
  exits (\<^verbatim>\<open>flag.ExitOnError\<close>) and \<^verbatim>\<open>flag.StringVar\<close> panics on a bad definition.
\<close>

datatype 'a outcome = Returns 'a | Exits int | Panics string

fun andThen :: "'a outcome \<Rightarrow> ('a \<Rightarrow> 'b outcome) \<Rightarrow> 'b outcome" where
  "andThen (Returns x) k = k x"
| "andThen (Exits c) k = Exits c"
| "andThen (Panics m) k = Panics m"

subsection \<open>The library calls the source makes\<close>

definition os_Getenv :: "string \<Rightarrow> process \<Rightarrow> string" where
  "os_Getenv name s = (case environ s name of None \<Rightarrow> '''' | Some v \<Rightarrow> v)"

text \<open>\<^verbatim>\<open>os.Stat(path)\<close>: the error is nil exactly when there is a file at the path.\<close>

definition os_Stat :: "string \<Rightarrow> process \<Rightarrow> bool" where
  "os_Stat path s = (files s path \<noteq> None)"

text \<open>
  \<^verbatim>\<open>godotenv.Load(path)\<close> reads and parses the file, and on success sets every key of
  the file that the environment does not hold yet; a key already in the environment
  keeps its value. On an error it sets nothing.
\<close>

definition godotenv_Load :: "string \<Rightarrow> process \<Rightarrow> error option \<times> process" where
  "godotenv_Load path s =
     (case files s path of
        None \<Rightarrow> (Some (Errorf (''open '' @ path @ '': no such file or directory'')), s)
      | Some (LoadFails e) \<Rightarrow> (Some e, s)
      | Some (Pairs kv) \<Rightarrow> (None, s\<lparr>environ := kv ++ environ s\<rparr>))"

definition poke :: "strptr \<Rightarrow> string \<Rightarrow> process \<Rightarrow> process" where
  "poke p v s = s\<lparr>heap := (heap s)(fst p := writeField (snd p) v (heap s (fst p)))\<rparr>"

definition peek :: "strptr \<Rightarrow> process \<Rightarrow> string" where
  "peek p s = readField (snd p) (heap s (fst p))"

text \<open>
  \<^verbatim>\<open>flag.StringVar(p, name, value, usage)\<close>: stores the default in \<^verbatim>\<open>*p\<close>, then defines
  the flag; it panics when the name begins with \<^verbatim>\<open>-\<close>, contains \<^verbatim>\<open>=\<close> or is defined already.
\<close>

definition flag_StringVar :: "strptr \<Rightarrow> string \<Rightarrow> string \<Rightarrow> string \<Rightarrow> process \<Rightarrow> process outcome" where
  "flag_StringVar p name dflt usage s =
     (let s1 = (poke p dflt s)\<lparr>stringVarCalls := stringVarCalls s @ [name]\<rparr>
      in if take 1 name = ''-'' then Panics (''flag '' @ name @ '' begins with -'')
         else if CHR ''='' \<in> set name then Panics (''flag '' @ name @ '' contains ='')
         else if formal s1 name \<noteq> None then Panics (''flag redefined: '' @ name)
         else Returns (s1\<lparr>formal := (formal s1)(name \<mapsto> p)\<rparr>))"

text \<open>
  \<^verbatim>\<open>flag.Parse()\<close> reads the command line from its start, every time it is called: each
  \<^verbatim>\<open>-name=value\<close> is stored in the variable the flag \<open>name\<close> is bound to; a flag that is not
  defined ends the process (status 0 for \<^verbatim>\<open>-h\<close> and \<^verbatim>\<open>-help\<close>, 2 otherwise).
\<close>

fun parseArgs :: "(string \<times> string) list \<Rightarrow> process \<Rightarrow> process outcome" where
  "parseArgs [] s = Returns s"
| "parseArgs ((name, v) # rest) s =
     (case formal s name of
        None \<Rightarrow> if name = ''help'' \<or> name = ''h'' then Exits 0 else Exits 2
      | Some p \<Rightarrow> parseArgs rest (poke p v s))"

definition flag_Parse :: "process \<Rightarrow> process outcome" where
  "flag_Parse s = parseArgs (args s) (s\<lparr>parseCalls := Suc (parseCalls s)\<rparr>)"

subsection \<open>registerFlag, validate, loadConfig\<close>

definition registerFlag :: "string \<Rightarrow> strptr \<Rightarrow> string \<Rightarrow> process \<Rightarrow> (error option \<times> process) outcome" where
  "registerFlag name valuep usage s =
     (let defaultValue = os_Getenv name s
      in andThen
           (if \<not> registeredFlags s name
            then andThen (flag_StringVar valuep name defaultValue usage s)
                   (\<lambda>s1. Returns (s1\<lparr>registeredFlags := (registeredFlags s1)(name := True)\<rparr>))
            else Returns s)
           (\<lambda>s2. Returns (None,
                   if registeredFlags s2 name \<and> defaultValue \<noteq> ''''
                   then poke valuep defaultValue s2 else s2)))"

definition validate :: "Config \<Rightarrow> error option" where
  "validate c =
     (let errs = None;
          errs = (if CollectorGRPCURL c = ''''
                  then errors_Join [errs, Some (Errorf ''collector grpc endpoint required'')]
                  else errs);
          errs = (if CollectorHTTPURL c = ''''
                  then errors_Join [errs, Some (Errorf ''collector http endpoint required'')]
                  else errs);
          errs = (if ServiceName c = ''''
                  then errors_Join [errs, Some (Errorf ''service name required'')]
                  else errs);
          errs = (if PprofURL c = ''''
                  then errors_Join [errs, Some (Errorf ''pprof endpoint required'')]
                  else errs)
      in errs)"

definition loadConfig :: "nat \<Rightarrow> string \<Rightarrow> process \<Rightarrow> (error option \<times> process) outcome" where
  "loadConfig cfg path0 s =
     (let path = (if path0 = '''' then ''.env'' else path0)
      in case (if os_Stat path s then godotenv_Load path s else (None, s)) of
           (Some err, s1) \<Rightarrow> Returns (Some (Wrapf ''loading .env file: '' err), s1)
         | (None, s1) \<Rightarrow>
             andThen (registerFlag ''collectorgrpcurl'' (cfg, F_CollectorGRPCURL)
                        ''the collector grpc endpoint'' s1) (\<lambda>(e2, s2).
             andThen (registerFlag ''collectorhttpurl'' (cfg, F_CollectorHTTPURL)
                        ''the collector http endpoint'' s2) (\<lambda>(e3, s3).
             andThen (registerFlag ''servicename'' (cfg, F_ServiceName)
                        ''the service name'' s3) (\<lambda>(e4, s4).
             andThen (registerFlag ''pprofurl'' (cfg, F_PprofURL)
                        ''the pprof endpoint'' s4) (\<lambda>(e5, s5).
             andThen (flag_Parse s5) (\<lambda>s6.
             Returns (validate (heap s6 cfg), s6)))))))"

text \<open>
  Two calls of \<^verbatim>\<open>loadConfig\<close> in one process, the second on the state the first left (the
  test of the source does this with one Config): the Configs given may be the same or
  different ones; the result holds both errors.
\<close>

definition loadConfigTwice :: "nat \<Rightarrow> nat \<Rightarrow> string \<Rightarrow> process \<Rightarrow> ((error option \<times> error option) \<times> process) outcome" where
  "loadConfigTwice cfg cfg2 path s =
     andThen (loadConfig cfg path s) (\<lambda>(err, s1).
     andThen (loadConfig cfg2 path s1) (\<lambda>(err2, s2).
     Returns ((err, err2), s2)))"

section \<open>The emitting task (main.go: rollDice, generateData)\<close>

subsection \<open>int64 arithmetic and formatting\<close>

type_synonym int64 = "64 word"

text \<open>Go's \<^verbatim>\<open>/\<close> and \<^verbatim>\<open>%\<close> on int64 truncate towards zero; \<^verbatim>\<open>*\<close> wraps around.\<close>

definition go_quot :: "int64 \<Rightarrow> int64 \<Rightarrow> int64" where
  "go_quot a b = word_of_int (sint a sdiv sint b)"

definition go_rem :: "int64 \<Rightarrow> int64 \<Rightarrow> int64" where
  "go_rem a b = word_of_int (sint a smod sint b)"

text \<open>\<^verbatim>\<open>time.Second\<close>: a \<^verbatim>\<open>time.Duration\<close> is an int64 count of nanoseconds.\<close>

definition Second :: int64 where
  "Second = 1000000000"

text \<open>The verb \<^verbatim>\<open>%d\<close> of \<^verbatim>\<open>fmt\<close> on an int64.\<close>

fun digits :: "nat \<Rightarrow> string" where
  "digits n = (if n < 10 then [''0123456789'' ! n]
               else digits (n div 10) @ [''0123456789'' ! (n mod 10)])"

declare digits.simps [simp del]

definition fmt_d :: "int64 \<Rightarrow> string" where
  "fmt_d x = (if sint x < 0 then ''-'' @ digits (nat (- sint x)) else digits (nat (sint x)))"

subsection \<open>Effects\<close>

text \<open>
  What the tasks of the program do to the world outside them, in the order they do it:
  spans, printed text, log records, sleeps, counter increments, \<^verbatim>\<open>wg.Done()\<close>, the
  cancellation of the shared context, and the four teardown callbacks of \<^verbatim>\<open>main\<close>.
\<close>

datatype level = LevelInfo | LevelError

datatype attr = AttrString string string | AttrInt64 string int64

datatype effect =
    SpanStart string string
  | SpanSetAttributes attr
  | SpanEnd
  | Print string
  | LogAttrs level string "attr list"
  | Sleep int64
  | CounterAdd string int64
  | WgDone
  | CtxCancel
  | PprofClose
  | LogShutdown
  | TraceShutdown
  | MeterShutdown

subsection \<open>rollDice\<close>

text \<open>
  The span is started on the tracer named after the service and ended when the function
  returns (\<^verbatim>\<open>defer span.End()\<close>). The cases of the \<^verbatim>\<open>switch\<close> are tried in the source's
  order.
\<close>

definition rollDice :: "int64 \<Rightarrow> Config \<Rightarrow> effect list" where
  "rollDice roll cfg =
     [SpanStart (ServiceName cfg) ''dice_roll'',
      SpanSetAttributes (AttrString ''action'' ''roll''),
      SpanSetAttributes (AttrInt64 ''roll'' roll),
      Print (fmt_d roll)] @
     (if roll = 0 then
        [LogAttrs LevelInfo ''Rolled zero'' [AttrInt64 ''roll'' roll], Sleep Second]
      else if go_rem roll 2 = 0 then
        [LogAttrs LevelInfo ''Rolled even'' [AttrInt64 ''roll'' roll],
         Sleep (Second * go_quot roll 2)]
      else if roll = 1 then
        [LogAttrs LevelInfo ''Rolled one'' [AttrInt64 ''roll'' roll], Sleep Second]
      else if go_rem roll 2 \<noteq> 0 then
        [LogAttrs LevelInfo ''Rolled odd'' [AttrInt64 ''roll'' roll],
         Sleep (Second * go_quot roll 2)]
      else []) @
     [SpanEnd]"

text \<open>The delays a list of effects holds: the arguments of its \<^verbatim>\<open>time.Sleep\<close> calls.\<close>

fun sleeps :: "effect list \<Rightarrow> int64 list" where
  "sleeps [] = []"
| "sleeps (Sleep d # es) = d # sleeps es"
| "sleeps (e # es) = sleeps es"

subsection \<open>generateData\<close>

text \<open>
  The meter is the SDK's: \<^verbatim>\<open>meter.Int64Counter(name, description)\<close> returns an instrument
  and an error. A meter is modelled by the error it gives for each instrument name, and an
  instrument by its name.
\<close>

type_synonym meter = "string \<Rightarrow> error option"

definition Int64Counter :: "meter \<Rightarrow> string \<Rightarrow> string \<Rightarrow> string \<times> error option" where
  "Int64Counter m name description = (name, m name)"

text \<open>
  \<^verbatim>\<open>rand.Intn(n)\<close> panics for \<open>n \<le> 0\<close> and otherwise returns a number in \<open>[0, n)\<close>; it is
  modelled as the reduction of the generator's next raw output.
\<close>

definition rand_Intn :: "nat \<Rightarrow> nat \<Rightarrow> nat" where
  "rand_Intn n raw = raw mod n"

text \<open>
  The loop \<^verbatim>\<open>for idx := int64(0); idx < 11; idx++\<close> that fills \<^verbatim>\<open>rollFreq\<close>: it stops at
  the first instrument the meter refuses (\<open>Inl\<close> of its index) or returns the map.
\<close>

function registerRolls :: "meter \<Rightarrow> int64 \<Rightarrow> (int64 \<rightharpoonup> string) \<Rightarrow> int64 + (int64 \<rightharpoonup> string)" where
  "registerRolls m idx rollFreq =
     (if sint idx < 11 then
        (case Int64Counter m (''roll-'' @ fmt_d idx @ ''-count'')
                (''Counter the total number of dice rolls for the number '' @ fmt_d idx) of
           (counter, Some err) \<Rightarrow> Inl idx
         | (counter, None) \<Rightarrow> registerRolls m (idx + 1) (rollFreq(idx \<mapsto> counter)))
      else Inr rollFreq)"
  by pat_completeness auto

termination
proof (relation "measure (\<lambda>(m, idx, rollFreq). nat (11 - sint idx))")
  fix m :: meter and idx :: int64 and rollFreq :: "int64 \<rightharpoonup> string" and counter :: string
  assume less: "sint idx < 11"
  have "- (2 ^ 63) \<le> sint idx"
    using sint_ge [of idx] by simp
  with less have "signed_take_bit 63 (sint idx + 1) = sint idx + 1"
    by (intro signed_take_bit_int_eq_self) simp_all
  then have "sint (idx + 1) = sint idx + 1"
    by (simp add: sint_word_ariths)
  with less show "((m, idx + 1, rollFreq(idx \<mapsto> counter)), (m, idx, rollFreq))
      \<in> measure (\<lambda>(m, idx, rollFreq). nat (11 - sint idx))"
    by simp
qed simp

declare registerRolls.simps [simp del]

text \<open>
  How a run of \<^verbatim>\<open>generateData\<close> ends: in its setup, at the cancellation of the context, or
  in the panic of a method call on a nil counter (the value a Go map gives for a key it
  does not hold).
\<close>

datatype gen_exit = SetupFailed | CtxDone | NilCounterPanic

text \<open>
  The loop \<^verbatim>\<open>for { select { case <-ctx.Done(): return; default: ... } }\<close>. The list holds
  the raw outputs of the random generator for the iterations that run before the context
  is seen done: one iteration per element, then the return.
\<close>

fun emitLoop :: "Config \<Rightarrow> string \<Rightarrow> (int64 \<rightharpoonup> string) \<Rightarrow> nat list \<Rightarrow> effect list \<times> gen_exit" where
  "emitLoop cfg diceRolls rollFreq [] = ([], CtxDone)"
| "emitLoop cfg diceRolls rollFreq (raw # rest) =
     (let roll = (word_of_nat (rand_Intn 10 raw) :: int64);
          es = rollDice roll cfg @ [CounterAdd diceRolls 1]
      in case rollFreq roll of
           None \<Rightarrow> (es, NilCounterPanic)
         | Some counter \<Rightarrow>
             (case emitLoop cfg diceRolls rollFreq rest of
                (es', r) \<Rightarrow> (es @ [CounterAdd counter 1] @ es', r)))"

text \<open>\<^verbatim>\<open>defer wg.Done()\<close> runs last on every way out.\<close>

definition generateData :: "meter \<Rightarrow> Config \<Rightarrow> nat list \<Rightarrow> effect list \<times> gen_exit" where
  "generateData m cfg draws =
     (case
        (case Int64Counter m ''dice-rolls'' ''Counts the total number of dice rolls'' of
           (diceRolls, Some err) \<Rightarrow>
             ([LogAttrs LevelError ''Creating counter'' [AttrString ''name'' ''dice-rolls'']],
              SetupFailed)
         | (diceRolls, None) \<Rightarrow>
             (case registerRolls m 0 Map.empty of
                Inl idx \<Rightarrow>
                  ([LogAttrs LevelError ''Creating roll counter''
                      [AttrString ''name'' ''roll'', AttrInt64 ''number'' idx]],
                   SetupFailed)
              | Inr rollFreq \<Rightarrow> emitLoop cfg diceRolls rollFreq draws))
      of (es, r) \<Rightarrow> (es @ [WgDone], r))"

section \<open>Shutdown (main.go: handleTermination, main)\<close>

text \<open>
  The closure \<^verbatim>\<open>teardown\<close> of \<^verbatim>\<open>main\<close>: \<^verbatim>\<open>ppf.Close()\<close>, \<^verbatim>\<open>logCleanup(ctx)\<close>,
  \<^verbatim>\<open>traceCleanup(ctx)\<close>, \<^verbatim>\<open>meterCleanup(ctx)\<close>, which are the Shutdown methods of the log,
  trace and meter providers.
\<close>

definition teardown :: "effect list" where
  "teardown = [PprofClose, LogShutdown, TraceShutdown, MeterShutdown]"

text \<open>
  Where the goroutine running \<^verbatim>\<open>handleTermination\<close> stands: before \<^verbatim>\<open>signal.Notify\<close>, at
  the \<^verbatim>\<open>select\<close>, inside \<^verbatim>\<open>teardown(ctx)\<close> with the callbacks still to call, or returned.
\<close>

datatype lpc = L_start | L_select | L_teardown "effect list" | L_returned

text \<open>
  The state the three goroutines of \<^verbatim>\<open>main\<close> share: the context (\<open>ctxDone\<close>), the
  channel \<^verbatim>\<open>interrupt\<close> (capacity 1, \<open>interruptCh\<close> signals buffered), the WaitGroup's
  counter, which goroutines have returned, and the effects so far, oldest first.
  \<open>teardownCalls\<close> counts the calls of \<^verbatim>\<open>teardown(ctx)\<close>.
\<close>

record coordinator =
  ctxDone :: bool
  interruptCh :: nat
  listenerPc :: lpc
  teardownCalls :: nat
  generatorReturned :: bool
  pprofReturned :: bool
  mainReturned :: bool
  wgCount :: int
  events :: "effect list"

text \<open>\<^verbatim>\<open>cancel()\<close>: the first call closes the context's Done channel, a later call does nothing.\<close>

definition cancel :: "coordinator \<Rightarrow> coordinator" where
  "cancel s = (if ctxDone s then s else s\<lparr>ctxDone := True, events := events s @ [CtxCancel]\<rparr>)"

text \<open>
  One step of \<^verbatim>\<open>handleTermination\<close>. At the \<^verbatim>\<open>select\<close>, a case is ready when the context
  is done, or when the channel holds a signal; when both are ready Go picks one at
  random, here by \<open>pickInterrupt\<close>; when none is ready the goroutine blocks (\<open>None\<close>).
\<close>

definition handleTermination :: "effect list \<Rightarrow> bool \<Rightarrow> coordinator \<Rightarrow> coordinator option" where
  "handleTermination td pickInterrupt s =
     (case listenerPc s of
        L_start \<Rightarrow> Some (s\<lparr>listenerPc := L_select\<rparr>)
      | L_select \<Rightarrow>
          if ctxDone s \<and> (interruptCh s = 0 \<or> \<not> pickInterrupt)
          then Some (s\<lparr>listenerPc := L_teardown td, teardownCalls := Suc (teardownCalls s)\<rparr>)
          else if 0 < interruptCh s
          then Some (cancel (s\<lparr>interruptCh := interruptCh s - 1\<rparr>))
          else None
      | L_teardown [] \<Rightarrow>
          Some (s\<lparr>listenerPc := L_returned, wgCount := wgCount s - 1,
                  events := events s @ [WgDone]\<rparr>)
      | L_teardown (c # cs) \<Rightarrow> Some (s\<lparr>listenerPc := L_teardown cs, events := events s @ [c]\<rparr>)
      | L_returned \<Rightarrow> None)"

text \<open>
  What can happen next in the process: a holder of the context's cancel function calls
  it (the test of the source does), the operating system delivers an interrupt (it
  reaches the channel once \<^verbatim>\<open>signal.Notify\<close> has run, and is dropped when the channel is
  full; before that it ends the process, which is no step here), the listener takes a step,
  \<^verbatim>\<open>generateData\<close> or \<^verbatim>\<open>servePprof\<close> returns (at any time: a failed setup, a listen
  error, the cancellation or the closed server), or \<^verbatim>\<open>wg.Wait()\<close> returns in \<^verbatim>\<open>main\<close>, whose
  deferred \<^verbatim>\<open>cancel()\<close> then runs. \<open>None\<close> means the action cannot happen in the state.
\<close>

datatype action =
    ExternalCancel
  | OsInterrupt
  | ListenerStep bool
  | GeneratorReturn
  | PprofReturn
  | MainReturn

definition fire :: "effect list \<Rightarrow> action \<Rightarrow> coordinator \<Rightarrow> coordinator option" where
  "fire td a s =
     (if mainReturned s then None
      else case a of
        ExternalCancel \<Rightarrow> Some (cancel s)
      | OsInterrupt \<Rightarrow>
          if listenerPc s = L_start then None
          else Some (s\<lparr>interruptCh := min 1 (interruptCh s + 1)\<rparr>)
      | ListenerStep pickInterrupt \<Rightarrow> handleTermination td pickInterrupt s
      | GeneratorReturn \<Rightarrow>
          if generatorReturned s then None
          else Some (s\<lparr>generatorReturned := True, wgCount := wgCount s - 1,
                        events := events s @ [WgDone]\<rparr>)
      | PprofReturn \<Rightarrow>
          if pprofReturned s then None
          else Some (s\<lparr>pprofReturned := True, wgCount := wgCount s - 1,
                        events := events s @ [WgDone]\<rparr>)
      | MainReturn \<Rightarrow>
          if wgCount s = 0 then Some ((cancel s)\<lparr>mainReturned := True\<rparr>) else None)"

fun run :: "effect list \<Rightarrow> action list \<Rightarrow> coordinator \<Rightarrow> coordinator option" where
  "run td [] s = Some s"
| "run td (a # as) s = (case fire td a s of None \<Rightarrow> None | Some s' \<Rightarrow> run td as s')"

text \<open>The state after \<^verbatim>\<open>wg.Add(3)\<close> and the three \<^verbatim>\<open>go\<close> statements of \<^verbatim>\<open>main\<close>.\<close>

definition started :: coordinator where
  "started = \<lparr>ctxDone = False, interruptCh = 0, listenerPc = L_start, teardownCalls = 0,
     generatorReturned = False, pprofReturned = False, mainReturned = False,
     wgCount = 3, events = []\<rparr>"

section \<open>Vocabulary of the properties\<close>

text \<open>A zero-valued \<^verbatim>\<open>Config{}\<close>, and a process at its start: no flag defined yet.\<close>

definition emptyConfig :: Config where
  "emptyConfig = \<lparr>CollectorGRPCURL = '''', CollectorHTTPURL = '''', ServiceName = '''',
     PprofURL = '''', MetricsPort = 0, TracerPort = 0, LoggerPort = 0\<rparr>"

definition startProcess :: "(string \<rightharpoonup> string) \<Rightarrow> (string \<rightharpoonup> dotenv) \<Rightarrow> (string \<times> string) list \<Rightarrow> process" where
  "startProcess env fs as =
     \<lparr>environ = env, files = fs, args = as, registeredFlags = (\<lambda>name. False),
      formal = Map.empty, heap = (\<lambda>a. emptyConfig), stringVarCalls = [], parseCalls = 0\<rparr>"

text \<open>The environment the test of the source sets.\<close>

definition testEnv :: "string \<rightharpoonup> string" where
  "testEnv = [''collectorgrpcurl'' \<mapsto> ''localhost:4317'', ''collectorhttpurl'' \<mapsto> ''localhost:4318'',
     ''servicename'' \<mapsto> ''ogen'', ''pprofurl'' \<mapsto> ''localhost:1777'']"

text \<open>The state once the dotenv file, if there is a readable one, is merged.\<close>

definition loaded :: "string \<Rightarrow> process \<Rightarrow> process" where
  "loaded path s = (case files s path of Some (Pairs kv) \<Rightarrow> s\<lparr>environ := kv ++ environ s\<rparr> | _ \<Rightarrow> s)"

text \<open>
  The specification's side of the validation: the required fields that are empty, in the
  order of the struct, the message that reports each, and the messages an error (or nil)
  reports.
\<close>

definition spec_requiredMsg :: "cfgfield \<Rightarrow> string" where
  "spec_requiredMsg f = (case f of
      F_CollectorGRPCURL \<Rightarrow> ''collector grpc endpoint required''
    | F_CollectorHTTPURL \<Rightarrow> ''collector http endpoint required''
    | F_ServiceName \<Rightarrow> ''service name required''
    | F_PprofURL \<Rightarrow> ''pprof endpoint required'')"

definition spec_emptyFields :: "Config \<Rightarrow> cfgfield list" where
  "spec_emptyFields c = filter (\<lambda>f. readField f c = '''')
      [F_CollectorGRPCURL, F_CollectorHTTPURL, F_ServiceName, F_PprofURL]"

definition reported :: "error option \<Rightarrow> string list" where
  "reported r = (case r of None \<Rightarrow> [] | Some e \<Rightarrow> subErrors e)"

text \<open>
  The four flags \<^verbatim>\<open>loadConfig\<close> registers, each with the field it binds, and the flag set
  in which exactly the registered ones of them are defined, bound to the fields of the
  Config at \<open>cfg\<close>.
\<close>

definition flagFields :: "(string \<times> cfgfield) list" where
  "flagFields = [(''collectorgrpcurl'', F_CollectorGRPCURL), (''collectorhttpurl'', F_CollectorHTTPURL),
     (''servicename'', F_ServiceName), (''pprofurl'', F_PprofURL)]"

definition boundFlags :: "nat \<Rightarrow> (string \<Rightarrow> bool) \<Rightarrow> (string \<rightharpoonup> strptr)" where
  "boundFlags cfg reg =
     (\<lambda>name. if reg name then map_option (Pair cfg) (map_of flagFields name) else None)"

text \<open>
  The Config the test of the source ends with, and a process in which that Config is in
  the store while the dotenv file of the test is malformed.
\<close>

definition testConfig :: Config where
  "testConfig = \<lparr>CollectorGRPCURL = ''localhost:4317'', CollectorHTTPURL = ''localhost:4318'',
     ServiceName = ''ogen'', PprofURL = ''localhost:1777'',
     MetricsPort = 0, TracerPort = 0, LoggerPort = 0\<rparr>"

definition malformedFileProcess :: process where
  "malformedFileProcess =
     (startProcess testEnv [''data/testenv'' \<mapsto> LoadFails (Errorf ''unexpected character'')] [])
       \<lparr>heap := (\<lambda>a. testConfig)\<rparr>"

text \<open>
  Two meters: one that refuses the instrument \<^verbatim>\<open>roll-3-count\<close>, and one that creates every
  instrument.
\<close>

definition refusingMeter :: meter where
  "refusingMeter = (\<lambda>name. if name = ''roll-3-count'' then Some (Errorf ''instrument refused'') else None)"

definition workingMeter :: meter where
  "workingMeter = (\<lambda>name. None)"

text \<open>
  The teardown callbacks among the events so far, the events before the context was
  cancelled, the goroutines the WaitGroup still waits for, and what holds at each place
  of the listener. \<open>coordinated\<close> is the invariant of every run from \<open>started\<close>.
\<close>

definition callbacksRun :: "coordinator \<Rightarrow> effect list" where
  "callbacksRun s = filter (\<lambda>e. e \<in> set teardown) (events s)"

definition beforeCancel :: "coordinator \<Rightarrow> effect list" where
  "beforeCancel s = takeWhile (\<lambda>e. e \<noteq> CtxCancel) (events s)"

definition waiting :: "coordinator \<Rightarrow> int" where
  "waiting s = (if listenerPc s = L_returned then 0 else 1)
     + (if generatorReturned s then 0 else 1) + (if pprofReturned s then 0 else 1)"

definition listenerOk :: "coordinator \<Rightarrow> bool" where
  "listenerOk s =
     (case listenerPc s of
        L_start \<Rightarrow> teardownCalls s = 0 \<and> callbacksRun s = []
      | L_select \<Rightarrow> teardownCalls s = 0 \<and> callbacksRun s = []
      | L_teardown cs \<Rightarrow> teardownCalls s = 1 \<and> ctxDone s \<and> callbacksRun s @ cs = teardown
      | L_returned \<Rightarrow> teardownCalls s = 1 \<and> ctxDone s \<and> callbacksRun s = teardown)"

definition coordinated :: "coordinator \<Rightarrow> bool" where
  "coordinated s \<longleftrightarrow>
     ctxDone s = (CtxCancel \<in> set (events s)) \<and>
     filter (\<lambda>e. e \<in> set teardown) (beforeCancel s) = [] \<and>
     wgCount s = waiting s \<and>
     (if mainReturned s then wgCount s = 0 else True) \<and>
     listenerOk s"

text \<open>
  A run in which both triggers race: an interrupt and an external cancellation arrive
  before the listener's \<^verbatim>\<open>select\<close>, which takes the interrupt first, and one more
  interrupt arrives afterwards.
\<close>

definition racingShutdown :: "action list" where
  "racingShutdown = [ListenerStep False, GeneratorReturn, OsInterrupt, ExternalCancel,
     ListenerStep True, OsInterrupt, ListenerStep False, ListenerStep False, PprofReturn,
     ListenerStep False, ListenerStep False, ListenerStep False, ListenerStep False, MainReturn]"

text \<open>
  A process whose environment, dotenv file and command line disagree on two keys, and a
  process configured by its command line alone.
\<close>

definition precedenceProcess :: process where
  "precedenceProcess = startProcess
     [''collectorgrpcurl'' \<mapsto> ''env-grpc:4317'', ''servicename'' \<mapsto> ''env-name'']
     [''.env'' \<mapsto> Pairs [''collectorgrpcurl'' \<mapsto> ''file-grpc:4317'',
        ''collectorhttpurl'' \<mapsto> ''file-http:4318'', ''servicename'' \<mapsto> ''file-name'',
        ''pprofurl'' \<mapsto> ''file-pprof:1777'']]
     [(''collectorgrpcurl'', ''flag-grpc:1''), (''collectorgrpcurl'', ''flag-grpc:4317'')]"

definition flagsOnlyProcess :: process where
  "flagsOnlyProcess = startProcess Map.empty Map.empty
     [(''collectorgrpcurl'', ''localhost:4317''), (''collectorhttpurl'', ''localhost:4318''),
      (''servicename'', ''ogen''), (''pprofurl'', ''localhost:1777'')]"

section \<open>Properties of the configuration loader\<close>

subsection \<open>Validation\<close>

lemma validate_reported: "reported (validate c) = map spec_requiredMsg (spec_emptyFields c)"
  by (simp add: validate_def errors_Join_def reported_def spec_emptyFields_def
      spec_requiredMsg_def List.map_filter_simps Let_def)

lemma validate_None_iff: "validate c = None \<longleftrightarrow> spec_emptyFields c = []"
  by (simp add: validate_def errors_Join_def spec_emptyFields_def List.map_filter_simps Let_def)

lemma spec_emptyFields_Nil_iff: "spec_emptyFields c = [] \<longleftrightarrow> (\<forall>f. readField f c \<noteq> '''')"
proof
  assume "spec_emptyFields c = []"
  then have a: "\<forall>f \<in> set [F_CollectorGRPCURL, F_CollectorHTTPURL, F_ServiceName, F_PprofURL].
      readField f c \<noteq> ''''"
    unfolding spec_emptyFields_def filter_empty_conv by simp
  show "\<forall>f. readField f c \<noteq> ''''"
  proof
    fix f
    show "readField f c \<noteq> ''''"
      using a by (cases f) simp_all
  qed
next
  assume "\<forall>f. readField f c \<noteq> ''''"
  then show "spec_emptyFields c = []"
    by (simp add: spec_emptyFields_def)
qed

subsection \<open>The steps of a call of loadConfig\<close>

lemma andThen_Returns: "andThen m k = Returns y \<longleftrightarrow> (\<exists>x. m = Returns x \<and> k x = Returns y)"
  by (cases m) simp_all

lemma registerFlag_None: "registerFlag name p usage s = Returns (e, s') \<Longrightarrow> e = None"
  by (auto simp: registerFlag_def Let_def andThen_Returns split: if_splits)

lemma loadConfig_chain:
  assumes "andThen (registerFlag ''collectorgrpcurl'' (cfg, F_CollectorGRPCURL)
                        ''the collector grpc endpoint'' s1) (\<lambda>(e2, s2).
             andThen (registerFlag ''collectorhttpurl'' (cfg, F_CollectorHTTPURL)
                        ''the collector http endpoint'' s2) (\<lambda>(e3, s3).
             andThen (registerFlag ''servicename'' (cfg, F_ServiceName)
                        ''the service name'' s3) (\<lambda>(e4, s4).
             andThen (registerFlag ''pprofurl'' (cfg, F_PprofURL)
                        ''the pprof endpoint'' s4) (\<lambda>(e5, s5).
             andThen (flag_Parse s5) (\<lambda>s6.
             Returns (validate (heap s6 cfg), s6)))))) = Returns (r, s')"
  shows "\<exists>s2 s3 s4 s5.
      registerFlag ''collectorgrpcurl'' (cfg, F_CollectorGRPCURL) ''the collector grpc endpoint'' s1
        = Returns (None, s2) \<and>
      registerFlag ''collectorhttpurl'' (cfg, F_CollectorHTTPURL) ''the collector http endpoint'' s2
        = Returns (None, s3) \<and>
      registerFlag ''servicename'' (cfg, F_ServiceName) ''the service name'' s3 = Returns (None, s4) \<and>
      registerFlag ''pprofurl'' (cfg, F_PprofURL) ''the pprof endpoint'' s4 = Returns (None, s5) \<and>
      flag_Parse s5 = Returns s' \<and> r = validate (heap s' cfg)"
proof -
  from assms obtain e2 s2 e3 s3 e4 s4 e5 s5 where
    "registerFlag ''collectorgrpcurl'' (cfg, F_CollectorGRPCURL) ''the collector grpc endpoint'' s1
       = Returns (e2, s2)"
    "registerFlag ''collectorhttpurl'' (cfg, F_CollectorHTTPURL) ''the collector http endpoint'' s2
       = Returns (e3, s3)"
    "registerFlag ''servicename'' (cfg, F_ServiceName) ''the service name'' s3 = Returns (e4, s4)"
    "registerFlag ''pprofurl'' (cfg, F_PprofURL) ''the pprof endpoint'' s4 = Returns (e5, s5)"
    "flag_Parse s5 = Returns s'" "r = validate (heap s' cfg)"
    by (auto simp: andThen_Returns)
  then show ?thesis
    by (auto dest!: registerFlag_None)
qed

lemma loadConfig_cases:
  assumes "loadConfig cfg path s = Returns (r, s')"
  obtains (failed) e where "files s (if path = '''' then ''.env'' else path) = Some (LoadFails e)"
      "r = Some (Wrapf ''loading .env file: '' e)" "s' = s"
  | (merged) s2 s3 s4 s5 where
      "\<forall>e. files s (if path = '''' then ''.env'' else path) \<noteq> Some (LoadFails e)"
      "registerFlag ''collectorgrpcurl'' (cfg, F_CollectorGRPCURL) ''the collector grpc endpoint''
         (loaded (if path = '''' then ''.env'' else path) s) = Returns (None, s2)"
      "registerFlag ''collectorhttpurl'' (cfg, F_CollectorHTTPURL) ''the collector http endpoint'' s2
         = Returns (None, s3)"
      "registerFlag ''servicename'' (cfg, F_ServiceName) ''the service name'' s3 = Returns (None, s4)"
      "registerFlag ''pprofurl'' (cfg, F_PprofURL) ''the pprof endpoint'' s4 = Returns (None, s5)"
      "flag_Parse s5 = Returns s'" "r = validate (heap s' cfg)"
proof -
  define p where "p = (if path = '''' then ''.env'' else path)"
  show thesis
  proof (cases "\<exists>e. files s p = Some (LoadFails e)")
    case True
    then obtain e where e: "files s p = Some (LoadFails e)" ..
    then have "loadConfig cfg path s = Returns (Some (Wrapf ''loading .env file: '' e), s)"
      unfolding loadConfig_def Let_def p_def [symmetric]
      by (simp add: os_Stat_def godotenv_Load_def)
    with assms have "r = Some (Wrapf ''loading .env file: '' e)" "s' = s"
      by simp_all
    with e show ?thesis
      unfolding p_def by (rule failed)
  next
    case False
    then have "loadConfig cfg path s =
        andThen (registerFlag ''collectorgrpcurl'' (cfg, F_CollectorGRPCURL)
                        ''the collector grpc endpoint'' (loaded p s)) (\<lambda>(e2, s2).
             andThen (registerFlag ''collectorhttpurl'' (cfg, F_CollectorHTTPURL)
                        ''the collector http endpoint'' s2) (\<lambda>(e3, s3).
             andThen (registerFlag ''servicename'' (cfg, F_ServiceName)
                        ''the service name'' s3) (\<lambda>(e4, s4).
             andThen (registerFlag ''pprofurl'' (cfg, F_PprofURL)
                        ''the pprof endpoint'' s4) (\<lambda>(e5, s5).
             andThen (flag_Parse s5) (\<lambda>s6.
             Returns (validate (heap s6 cfg), s6))))))"
      unfolding loadConfig_def Let_def p_def [symmetric]
      by (cases "files s p"; cases "the (files s p)")
        (simp_all add: os_Stat_def loaded_def godotenv_Load_def)
    with assms obtain s2 s3 s4 s5 where
      "registerFlag ''collectorgrpcurl'' (cfg, F_CollectorGRPCURL) ''the collector grpc endpoint''
         (loaded p s) = Returns (None, s2)"
      "registerFlag ''collectorhttpurl'' (cfg, F_CollectorHTTPURL) ''the collector http endpoint'' s2
         = Returns (None, s3)"
      "registerFlag ''servicename'' (cfg, F_ServiceName) ''the service name'' s3 = Returns (None, s4)"
      "registerFlag ''pprofurl'' (cfg, F_PprofURL) ''the pprof endpoint'' s4 = Returns (None, s5)"
      "flag_Parse s5 = Returns s'" "r = validate (heap s' cfg)"
      using loadConfig_chain [of cfg "loaded p s" r s'] by auto
    then show ?thesis
      using merged [of s2 s3 s4 s5] False by (simp add: p_def)
  qed
qed

subsection \<open>A malformed dotenv file\<close>

lemma loadConfig_load_fails:
  assumes "files s (if path = '''' then ''.env'' else path) = Some (LoadFails e)"
  shows "loadConfig cfg path s = Returns (Some (Wrapf ''loading .env file: '' e), s)"
  using assms by (simp add: loadConfig_def os_Stat_def godotenv_Load_def)

text \<open>
  C6: when the file at the path (\<^verbatim>\<open>.env\<close> for an empty path) exists and
  \<^verbatim>\<open>godotenv.Load\<close> fails on it, \<^verbatim>\<open>loadConfig\<close> returns that error wrapped as
  \<^verbatim>\<open>loading .env file: ...\<close> and the whole process state is as before the call: no flag
  is registered, the command line is not parsed, no Config field and no environment
  variable is written.
\<close>

theorem malformed_dotenv_aborts:
  assumes "files s (if path = '''' then ''.env'' else path) = Some (LoadFails e)"
  shows "loadConfig cfg path s = Returns (Some (Wrapf ''loading .env file: '' e), s)"
  using assms by (rule loadConfig_load_fails)

theorem malformed_dotenv_aborts_witness:
  "files (startProcess testEnv [''.env'' \<mapsto> LoadFails (Errorf ''unexpected character'')]
            [(''servicename'', ''demo'')]) ''.env''
     = Some (LoadFails (Errorf ''unexpected character'')) \<and>
   loadConfig 0 '''' (startProcess testEnv [''.env'' \<mapsto> LoadFails (Errorf ''unexpected character'')]
                       [(''servicename'', ''demo'')])
     = Returns (Some (Wrapf ''loading .env file: '' (Errorf ''unexpected character'')),
         startProcess testEnv [''.env'' \<mapsto> LoadFails (Errorf ''unexpected character'')]
           [(''servicename'', ''demo'')])"
  using malformed_dotenv_aborts [of
      "startProcess testEnv [''.env'' \<mapsto> LoadFails (Errorf ''unexpected character'')]
         [(''servicename'', ''demo'')]"
      "''''" "Errorf ''unexpected character''" 0]
  by (simp add: startProcess_def)

subsection \<open>Frames and the result of a call\<close>

text \<open>The definitions a concrete call of \<^verbatim>\<open>loadConfig\<close> unfolds to.\<close>

lemmas run_defs = loadConfig_def os_Stat_def godotenv_Load_def registerFlag_def
  flag_StringVar_def flag_Parse_def os_Getenv_def poke_def startProcess_def Let_def
  testEnv_def emptyConfig_def

lemma poke_frame [simp]:
  "environ (poke p v s) = environ s" "files (poke p v s) = files s" "args (poke p v s) = args s"
  "registeredFlags (poke p v s) = registeredFlags s" "formal (poke p v s) = formal s"
  "stringVarCalls (poke p v s) = stringVarCalls s" "parseCalls (poke p v s) = parseCalls s"
  by (simp_all add: poke_def)

lemma writeField_ports [simp]:
  "MetricsPort (writeField f v c) = MetricsPort c" "TracerPort (writeField f v c) = TracerPort c"
  "LoggerPort (writeField f v c) = LoggerPort c"
  by (cases f; simp)+

lemma poke_ports [simp]:
  "MetricsPort (heap (poke p v s) b) = MetricsPort (heap s b)"
  "TracerPort (heap (poke p v s) b) = TracerPort (heap s b)"
  "LoggerPort (heap (poke p v s) b) = LoggerPort (heap s b)"
  by (simp_all add: poke_def)

lemma registerFlag_frame:
  assumes "registerFlag name p usage s = Returns (e, s')"
  shows "environ s' = environ s \<and> files s' = files s \<and> args s' = args s \<and>
    parseCalls s' = parseCalls s \<and>
    MetricsPort (heap s' b) = MetricsPort (heap s b) \<and>
    TracerPort (heap s' b) = TracerPort (heap s b) \<and>
    LoggerPort (heap s' b) = LoggerPort (heap s b)"
  using assms
  by (auto simp: registerFlag_def flag_StringVar_def Let_def andThen_Returns split: if_splits)

lemma parseArgs_frame:
  "parseArgs as s = Returns s' \<Longrightarrow>
     environ s' = environ s \<and> files s' = files s \<and> args s' = args s \<and>
     registeredFlags s' = registeredFlags s \<and> formal s' = formal s \<and>
     stringVarCalls s' = stringVarCalls s \<and> parseCalls s' = parseCalls s \<and>
     MetricsPort (heap s' b) = MetricsPort (heap s b) \<and>
     TracerPort (heap s' b) = TracerPort (heap s b) \<and>
     LoggerPort (heap s' b) = LoggerPort (heap s b)"
proof (induction as arbitrary: s)
  case Nil
  then show ?case by simp
next
  case (Cons a as)
  obtain n v where a: "a = (n, v)" by (cases a)
  from Cons.prems a obtain p where p: "formal s n = Some p" "parseArgs as (poke p v s) = Returns s'"
    by (auto split: option.splits if_splits)
  from Cons.IH [OF p(2)] show ?case by simp
qed

lemma flag_Parse_frame:
  assumes "flag_Parse s = Returns s'"
  shows "environ s' = environ s \<and> files s' = files s \<and> args s' = args s \<and>
     registeredFlags s' = registeredFlags s \<and> formal s' = formal s \<and>
     stringVarCalls s' = stringVarCalls s \<and> parseCalls s' = Suc (parseCalls s) \<and>
     MetricsPort (heap s' b) = MetricsPort (heap s b) \<and>
     TracerPort (heap s' b) = TracerPort (heap s b) \<and>
     LoggerPort (heap s' b) = LoggerPort (heap s b)"
  using parseArgs_frame [of "args s" "s\<lparr>parseCalls := Suc (parseCalls s)\<rparr>" s' b] assms
  by (simp add: flag_Parse_def)

lemma loaded_frame [simp]:
  "files (loaded p s) = files s" "args (loaded p s) = args s" "heap (loaded p s) = heap s"
  "registeredFlags (loaded p s) = registeredFlags s" "formal (loaded p s) = formal s"
  "stringVarCalls (loaded p s) = stringVarCalls s" "parseCalls (loaded p s) = parseCalls s"
  by (simp_all add: loaded_def split: option.splits dotenv.splits)

lemma loaded_environ:
  "environ (loaded p s) = (case files s p of Some (Pairs kv) \<Rightarrow> kv ++ environ s | _ \<Rightarrow> environ s)"
  by (simp add: loaded_def split: option.splits dotenv.splits)

text \<open>
  C1 (as amended): whenever the dotenv file is absent or loads, a call of \<^verbatim>\<open>loadConfig\<close>
  that returns gives an error if and only if at least one of the four required fields of
  the Config is empty after the call, and the error is the join of exactly one sub-error
  per empty field, in the order of the fields: it is what \<^verbatim>\<open>validate\<close> returns on the
  merged Config.
\<close>

theorem loadConfig_error_iff_missing:
  assumes "loadConfig cfg path s = Returns (r, s')"
    and "\<forall>e. files s (if path = '''' then ''.env'' else path) \<noteq> Some (LoadFails e)"
  shows "(r \<noteq> None \<longleftrightarrow> (\<exists>f. readField f (heap s' cfg) = '''')) \<and>
     reported r = map spec_requiredMsg (spec_emptyFields (heap s' cfg)) \<and>
     r = validate (heap s' cfg)"
proof -
  from assms(1) have r: "r = validate (heap s' cfg)"
  proof (cases rule: loadConfig_cases)
    case (failed e)
    with assms(2) show ?thesis by simp
  next
    case (merged s2 s3 s4 s5)
    then show ?thesis by simp
  qed
  have iff: "r \<noteq> None \<longleftrightarrow> (\<exists>f. readField f (heap s' cfg) = '''')"
    unfolding r validate_None_iff spec_emptyFields_Nil_iff by simp
  have rep: "reported r = map spec_requiredMsg (spec_emptyFields (heap s' cfg))"
    unfolding r by (rule validate_reported)
  from iff rep r show ?thesis
    by (intro conjI)
qed

lemma noenv_run:
  "\<exists>r s'. loadConfig 0 '''' (startProcess Map.empty Map.empty []) = Returns (r, s') \<and>
     heap s' 0 = emptyConfig"
  by (simp add: run_defs)

theorem loadConfig_error_iff_missing_witness:
  "(\<forall>e. files (startProcess Map.empty Map.empty []) ''.env'' \<noteq> Some (LoadFails e)) \<and>
   map_outcome (reported \<circ> fst) (loadConfig 0 '''' (startProcess Map.empty Map.empty []))
     = Returns [''collector grpc endpoint required'', ''collector http endpoint required'',
         ''service name required'', ''pprof endpoint required'']"
proof -
  have nofile: "\<forall>e. files (startProcess Map.empty Map.empty []) (if '''' = '''' then ''.env'' else '''')
      \<noteq> Some (LoadFails e)"
    by (simp add: startProcess_def)
  obtain r s' where run: "loadConfig 0 '''' (startProcess Map.empty Map.empty []) = Returns (r, s')"
    and h: "heap s' 0 = emptyConfig"
    using noenv_run by blast
  from loadConfig_error_iff_missing [OF run nofile]
  have "reported r = map spec_requiredMsg (spec_emptyFields (heap s' 0))" by blast
  then have "reported r = [''collector grpc endpoint required'', ''collector http endpoint required'',
         ''service name required'', ''pprof endpoint required'']"
    by (simp add: h emptyConfig_def spec_emptyFields_def spec_requiredMsg_def)
  then show ?thesis
    using run nofile by simp
qed

text \<open>
  The claim as stated covers every file: with a malformed file \<^verbatim>\<open>loadConfig\<close> returns
  an error although no required field is empty, and the error is the wrapped load error,
  not a join of field errors.
\<close>

theorem malformed_file_error_counterexample:
  "loadConfig 0 ''data/testenv'' malformedFileProcess
     = Returns (Some (Wrapf ''loading .env file: '' (Errorf ''unexpected character'')),
         malformedFileProcess) \<and>
   spec_emptyFields (heap malformedFileProcess 0) = [] \<and>
   reported (Some (Wrapf ''loading .env file: '' (Errorf ''unexpected character'')))
     = [''loading .env file: unexpected character'']"
  by (simp add: loadConfig_def os_Stat_def godotenv_Load_def malformedFileProcess_def
      startProcess_def spec_emptyFields_def testConfig_def reported_def)

text \<open>
  C10: a call of \<^verbatim>\<open>loadConfig\<close> that returns leaves the environment as it was when
  there is no file at the path (\<^verbatim>\<open>.env\<close> for an empty path), and never writes the fields
  MetricsPort, TracerPort and LoggerPort of any Config.
\<close>

theorem loadConfig_frame:
  assumes "loadConfig cfg path s = Returns (r, s')"
  shows "(files s (if path = '''' then ''.env'' else path) = None \<longrightarrow> environ s' = environ s) \<and>
     MetricsPort (heap s' b) = MetricsPort (heap s b) \<and>
     TracerPort (heap s' b) = TracerPort (heap s b) \<and>
     LoggerPort (heap s' b) = LoggerPort (heap s b)"
  using assms
proof (cases rule: loadConfig_cases)
  case (failed e)
  then show ?thesis by simp
next
  case (merged s2 s3 s4 s5)
  let ?p = "if path = '''' then ''.env'' else path"
  note f2 = registerFlag_frame [OF merged(2), of b]
  note f3 = registerFlag_frame [OF merged(3), of b]
  note f4 = registerFlag_frame [OF merged(4), of b]
  note f5 = registerFlag_frame [OF merged(5), of b]
  note f6 = flag_Parse_frame [OF merged(6), of b]
  have env: "environ s' = environ (loaded ?p s)"
    using f2 f3 f4 f5 f6 by simp
  have ports: "MetricsPort (heap s' b) = MetricsPort (heap s b)"
    "TracerPort (heap s' b) = TracerPort (heap s b)"
    "LoggerPort (heap s' b) = LoggerPort (heap s b)"
    using f2 f3 f4 f5 f6 by simp_all
  show ?thesis
    using env ports by (simp add: loaded_environ)
qed

theorem loadConfig_frame_witness:
  "files (startProcess testEnv Map.empty []) ''.env'' = None \<and>
   map_outcome (\<lambda>(r, s'). (r, environ s' ''servicename'', ServiceName (heap s' 0), MetricsPort (heap s' 0), TracerPort (heap s' 0), LoggerPort (heap s' 0)))
     (loadConfig 0 '''' (startProcess testEnv Map.empty []))
     = Returns (None, Some ''ogen'', ''ogen'', 0, 0, 0)"
proof -
  obtain r s' where run: "loadConfig 0 '''' (startProcess testEnv Map.empty []) = Returns (r, s')"
    and h: "r = None" "ServiceName (heap s' 0) = ''ogen''"
    by (simp add: run_defs validate_def errors_Join_def)
  from loadConfig_frame [OF run, of 0]
  have "environ s' = environ (startProcess testEnv Map.empty [])"
    "MetricsPort (heap s' 0) = 0" "TracerPort (heap s' 0) = 0" "LoggerPort (heap s' 0) = 0"
    by (simp_all add: startProcess_def emptyConfig_def)
  then show ?thesis
    using run h by (simp add: startProcess_def testEnv_def)
qed

section \<open>Properties of the emitting task\<close>

subsection \<open>The delay of a roll\<close>

lemma sint_succ:
  assumes "sint (idx :: int64) < 11"
  shows "sint (idx + 1) = sint idx + 1"
proof -
  have lo: "- (2 ^ 63) \<le> sint idx"
    using sint_ge [of idx] by simp
  have "sint (idx + 1) = signed_take_bit 63 (sint idx + 1)"
    by (simp add: sint_word_ariths)
  also have "\<dots> = sint idx + 1"
    using lo assms by (intro signed_take_bit_int_eq_self) simp_all
  finally show ?thesis .
qed

lemma roll_values: "n < 10 \<Longrightarrow> n \<in> {0, 1, 2, 3, 4, 5, 6, 7, 8, 9::nat}"
  by auto

lemma rand_Intn_10: "rand_Intn 10 raw < 10"
  by (simp add: rand_Intn_def)

lemma sint_small:
  assumes "n < 10"
  shows "sint (word_of_nat n :: int64) = int n"
  using roll_values [OF assms] by (elim insertE emptyE) simp_all

lemma rollDice_delay:
  assumes "n < 10"
  shows "sleeps (rollDice (word_of_nat n) cfg) = [word_of_nat (if n < 2 then 1 else n div 2) * Second]"
  using roll_values [OF assms]
  by (elim insertE emptyE)
    (simp_all add: rollDice_def go_rem_def go_quot_def signed_modulo_int_def
      signed_divide_int_def)

text \<open>
  C7 (as amended): for every roll the loop generates (\<^verbatim>\<open>rand.Intn(10)\<close>, so 0 to 9),
  \<^verbatim>\<open>rollDice\<close> sleeps exactly once, for a delay that is a function of the roll alone: one
  second for the rolls 0 and 1, and the roll halved (rounded down) in seconds for the
  rolls 2 to 9.
\<close>

theorem rollDice_delay_of_roll:
  "sleeps (rollDice (word_of_nat (rand_Intn 10 raw)) cfg)
     = [word_of_nat (if rand_Intn 10 raw < 2 then 1 else rand_Intn 10 raw div 2) * Second]"
  using rand_Intn_10 by (rule rollDice_delay)

text \<open>
  The delay is not proportional to the roll: the rolls 0, 1, 2 and 3 all sleep one
  second, and the roll 4 sleeps two.
\<close>

theorem rollDice_delay_counterexample:
  "sleeps (rollDice 0 testConfig) = [1000000000] \<and>
   sleeps (rollDice 1 testConfig) = [1000000000] \<and>
   sleeps (rollDice 2 testConfig) = [1000000000] \<and>
   sleeps (rollDice 3 testConfig) = [1000000000] \<and>
   sleeps (rollDice 4 testConfig) = [2000000000]"
  by (simp add: rollDice_def go_rem_def go_quot_def signed_modulo_int_def
        signed_divide_int_def Second_def)

subsection \<open>The setup of the counters\<close>

lemma sint_inj: "sint (a :: int64) = sint b \<Longrightarrow> a = b"
  by (rule signed_word_eqI)

lemma registerRolls_Inl:
  "registerRolls m idx rf = Inl i \<Longrightarrow>
     m (''roll-'' @ fmt_d i @ ''-count'') \<noteq> None \<and> sint idx \<le> sint i \<and> sint i < 11"
proof (induction m idx rf rule: registerRolls.induct)
  case (1 m idx rollFreq)
  show ?case
  proof (cases "sint idx < 11")
    case False
    with "1.prems" show ?thesis by (simp add: registerRolls.simps)
  next
    case True
    show ?thesis
    proof (cases "m (''roll-'' @ fmt_d idx @ ''-count'')")
      case None
      with True "1.prems" have rec: "registerRolls m (idx + 1) (rollFreq(idx \<mapsto> ''roll-'' @ fmt_d idx @ ''-count'')) = Inl i"
        by (simp add: registerRolls.simps [of m idx] Int64Counter_def)
      have "m (''roll-'' @ fmt_d i @ ''-count'') \<noteq> None \<and> sint (idx + 1) \<le> sint i \<and> sint i < 11"
        using None by (intro "1.IH" [OF True _ _ rec]) (simp_all add: Int64Counter_def)
      then show ?thesis using sint_succ [OF True] by simp
    next
      case (Some err)
      with True "1.prems" have "i = idx"
        by (simp add: registerRolls.simps [of m idx] Int64Counter_def)
      with Some True show ?thesis by simp
    qed
  qed
qed

lemma registerRolls_Inr:
  "registerRolls m idx rf = Inr rf' \<Longrightarrow>
     (\<forall>j. sint idx \<le> sint j \<and> sint j < 11 \<longrightarrow>
        m (''roll-'' @ fmt_d j @ ''-count'') = None \<and> rf' j = Some (''roll-'' @ fmt_d j @ ''-count'')) \<and>
     (\<forall>j. \<not> (sint idx \<le> sint j \<and> sint j < 11) \<longrightarrow> rf' j = rf j)"
proof (induction m idx rf rule: registerRolls.induct)
  case (1 m idx rollFreq)
  show ?case
  proof (cases "sint idx < 11")
    case False
    with "1.prems" show ?thesis by (auto simp add: registerRolls.simps [of m idx])
  next
    case True
    show ?thesis
    proof (cases "m (''roll-'' @ fmt_d idx @ ''-count'')")
      case (Some err)
      with True "1.prems" show ?thesis
        by (simp add: registerRolls.simps [of m idx] Int64Counter_def)
    next
      case None
      let ?rf = "rollFreq(idx \<mapsto> ''roll-'' @ fmt_d idx @ ''-count'')"
      from None True "1.prems" have rec: "registerRolls m (idx + 1) ?rf = Inr rf'"
        by (simp add: registerRolls.simps [of m idx] Int64Counter_def)
      have ih: "(\<forall>j. sint (idx + 1) \<le> sint j \<and> sint j < 11 \<longrightarrow>
           m (''roll-'' @ fmt_d j @ ''-count'') = None \<and> rf' j = Some (''roll-'' @ fmt_d j @ ''-count'')) \<and>
         (\<forall>j. \<not> (sint (idx + 1) \<le> sint j \<and> sint j < 11) \<longrightarrow> rf' j = ?rf j)"
        using None by (intro "1.IH" [OF True _ _ rec]) (simp_all add: Int64Counter_def)
      note s = sint_succ [OF True]
      show ?thesis
      proof (intro conjI allI impI)
        fix j :: int64 assume j: "sint idx \<le> sint j \<and> sint j < 11"
        show "m (''roll-'' @ fmt_d j @ ''-count'') = None"
        proof (cases "j = idx")
          case True then show ?thesis using None by simp
        next
          case False
          then have "sint j \<noteq> sint idx" using sint_inj by blast
          with j have "sint (idx + 1) \<le> sint j \<and> sint j < 11" using s by simp
          with ih show ?thesis by blast
        qed
        show "rf' j = Some (''roll-'' @ fmt_d j @ ''-count'')"
        proof (cases "j = idx")
          case True
          then have "\<not> (sint (idx + 1) \<le> sint j \<and> sint j < 11)" using s by simp
          with ih have "rf' j = ?rf j" by blast
          with True show ?thesis by simp
        next
          case False
          then have "sint j \<noteq> sint idx" using sint_inj by blast
          with j have "sint (idx + 1) \<le> sint j \<and> sint j < 11" using s by simp
          with ih show ?thesis by blast
        qed
      next
        fix j :: int64 assume j: "\<not> (sint idx \<le> sint j \<and> sint j < 11)"
        then have "\<not> (sint (idx + 1) \<le> sint j \<and> sint j < 11)" using s by auto
        with ih have "rf' j = ?rf j" by blast
        moreover have "j \<noteq> idx" using j True by auto
        ultimately show "rf' j = rollFreq j" by simp
      qed
    qed
  qed
qed

subsection \<open>The roll loop\<close>

lemma emitLoop_no_panic:
  assumes "\<forall>raw. rollFreq (word_of_nat (rand_Intn 10 raw)) \<noteq> None"
  shows "snd (emitLoop cfg diceRolls rollFreq draws) \<noteq> NilCounterPanic"
proof (induction draws)
  case Nil
  show ?case by simp
next
  case (Cons raw rest)
  from assms obtain c where "rollFreq (word_of_nat (rand_Intn 10 raw)) = Some c"
    by blast
  with Cons show ?case
    by (auto simp: Let_def split: prod.splits)
qed

lemma roll_range:
  "0 \<le> sint (word_of_nat (rand_Intn 10 raw) :: int64) \<and> sint (word_of_nat (rand_Intn 10 raw) :: int64) \<le> 9"
  using rand_Intn_10 [of raw] by (simp add: sint_small)

lemma rollFreq_keys:
  assumes "registerRolls m 0 Map.empty = Inr rollFreq"
  shows "dom rollFreq = {j. 0 \<le> sint j \<and> sint j \<le> 10}"
proof -
  from registerRolls_Inr [OF assms]
  have a: "\<And>j. 0 \<le> sint j \<and> sint j < 11 \<Longrightarrow> rollFreq j \<noteq> None"
    and b: "\<And>j. \<not> (0 \<le> sint j \<and> sint j < 11) \<Longrightarrow> rollFreq j = None"
    by simp_all
  show ?thesis
  proof (rule set_eqI)
    fix j
    show "j \<in> dom rollFreq \<longleftrightarrow> j \<in> {j. 0 \<le> sint j \<and> sint j \<le> 10}"
      using a [of j] b [of j] by (cases "0 \<le> sint j \<and> sint j < 11") (auto simp: dom_def)
  qed
qed

lemma rollFreq_covers:
  assumes "registerRolls m 0 Map.empty = Inr rollFreq"
  shows "rollFreq (word_of_nat (rand_Intn 10 raw)) \<noteq> None"
proof -
  have "word_of_nat (rand_Intn 10 raw) \<in> dom rollFreq"
    unfolding rollFreq_keys [OF assms] using roll_range [of raw] by simp
  then show ?thesis by (simp add: dom_def)
qed

text \<open>
  C9: every roll the loop generates lies in 0 to 9; when the setup succeeds the keys of
  \<^verbatim>\<open>rollFreq\<close> are exactly 0 to 10, so the lookup \<^verbatim>\<open>rollFreq[roll]\<close> finds a counter; and
  no run of \<^verbatim>\<open>generateData\<close>, whatever the meter and the random draws, ends in a call on
  a nil counter.
\<close>

theorem rollFreq_lookup_never_nil:
  "snd (generateData m cfg draws) \<noteq> NilCounterPanic \<and>
   0 \<le> sint (word_of_nat (rand_Intn 10 raw) :: int64) \<and>
   sint (word_of_nat (rand_Intn 10 raw) :: int64) \<le> 9 \<and>
   (registerRolls m 0 Map.empty = Inr rollFreq \<longrightarrow>
      dom rollFreq = {j. 0 \<le> sint j \<and> sint j \<le> 10} \<and>
      rollFreq (word_of_nat (rand_Intn 10 raw)) \<noteq> None)"
proof -
  have "snd (generateData m cfg draws) \<noteq> NilCounterPanic"
  proof (cases "m ''dice-rolls''")
    case (Some err)
    then show ?thesis by (simp add: generateData_def Int64Counter_def)
  next
    case None
    show ?thesis
    proof (cases "registerRolls m 0 Map.empty")
      case (Inl idx)
      with None show ?thesis by (simp add: generateData_def Int64Counter_def)
    next
      case (Inr rf)
      have "snd (emitLoop cfg ''dice-rolls'' rf draws) \<noteq> NilCounterPanic"
        by (rule emitLoop_no_panic) (simp add: rollFreq_covers [OF Inr])
      with None Inr show ?thesis
        by (auto simp: generateData_def Int64Counter_def split: prod.splits)
    qed
  qed
  then show ?thesis
    using roll_range [of raw] rollFreq_keys [of m rollFreq] rollFreq_covers [of m rollFreq raw]
    by blast
qed

lemma workingMeter_registers: "\<exists>rollFreq. registerRolls workingMeter 0 Map.empty = Inr rollFreq"
proof (cases "registerRolls workingMeter 0 Map.empty")
  case (Inl idx)
  from registerRolls_Inl [OF this] show ?thesis by (simp add: workingMeter_def)
next
  case (Inr rf)
  then show ?thesis by blast
qed

lemma workingMeter_run:
  "snd (generateData workingMeter testConfig [27, 4]) = CtxDone \<and>
   sleeps (fst (generateData workingMeter testConfig [27, 4])) = [3000000000, 2000000000]"
  by (simp add: generateData_def Int64Counter_def workingMeter_def registerRolls.simps
      fmt_d_def digits.simps rand_Intn_def rollDice_def go_rem_def go_quot_def
      signed_modulo_int_def signed_divide_int_def Second_def Let_def)

theorem rollFreq_lookup_never_nil_witness:
  "\<exists>rollFreq. registerRolls workingMeter 0 Map.empty = Inr rollFreq \<and>
     dom rollFreq = {j. 0 \<le> sint j \<and> sint j \<le> 10} \<and>
     rollFreq (word_of_nat (rand_Intn 10 27)) \<noteq> None \<and>
     snd (generateData workingMeter testConfig [27, 4]) = CtxDone"
proof -
  obtain rf where rf: "registerRolls workingMeter 0 Map.empty = Inr rf"
    using workingMeter_registers by blast
  from rollFreq_lookup_never_nil [of workingMeter testConfig "[27, 4]" 27 rf] rf workingMeter_run
  show ?thesis by blast
qed

text \<open>
  C8: when the meter fails to construct a counter (\<^verbatim>\<open>dice-rolls\<close> or one of
  \<^verbatim>\<open>roll-0-count\<close> to \<^verbatim>\<open>roll-10-count\<close>), all that \<^verbatim>\<open>generateData\<close> does is write one
  log record at the error level and call \<^verbatim>\<open>wg.Done()\<close>: it returns from its setup without
  a single roll, and it neither cancels the context nor calls a teardown callback, which
  are the only ways it could reach the other two tasks.
\<close>

theorem counter_failure_returns_early:
  assumes "m ''dice-rolls'' \<noteq> None \<or>
     (\<exists>j. 0 \<le> sint j \<and> sint j < 11 \<and> m (''roll-'' @ fmt_d j @ ''-count'') \<noteq> None)"
  shows "\<exists>msg attrs. generateData m cfg draws = ([LogAttrs LevelError msg attrs, WgDone], SetupFailed)"
proof (cases "m ''dice-rolls''")
  case (Some err)
  then show ?thesis by (simp add: generateData_def Int64Counter_def)
next
  case None
  with assms obtain j where j: "0 \<le> sint j" "sint j < 11" "m (''roll-'' @ fmt_d j @ ''-count'') \<noteq> None"
    by auto
  show ?thesis
  proof (cases "registerRolls m 0 Map.empty")
    case (Inl idx)
    with None show ?thesis by (simp add: generateData_def Int64Counter_def)
  next
    case (Inr rf)
    from registerRolls_Inr [OF Inr] j have False by simp
    then show ?thesis ..
  qed
qed

lemma refusingMeter_run:
  "generateData refusingMeter testConfig [5]
     = ([LogAttrs LevelError ''Creating roll counter''
           [AttrString ''name'' ''roll'', AttrInt64 ''number'' 3], WgDone], SetupFailed)"
  by (simp add: generateData_def Int64Counter_def refusingMeter_def registerRolls.simps
      fmt_d_def digits.simps)

theorem counter_failure_returns_early_witness:
  "refusingMeter ''roll-3-count'' \<noteq> None \<and>
   generateData refusingMeter testConfig [5]
     = ([LogAttrs LevelError ''Creating roll counter''
           [AttrString ''name'' ''roll'', AttrInt64 ''number'' 3], WgDone], SetupFailed)"
proof -
  have h: "refusingMeter ''dice-rolls'' \<noteq> None \<or>
     (\<exists>j. 0 \<le> sint j \<and> sint j < 11 \<and> refusingMeter (''roll-'' @ fmt_d j @ ''-count'') \<noteq> None)"
    by (rule disjI2, rule exI [of _ 3]) (simp add: refusingMeter_def fmt_d_def digits.simps)
  from counter_failure_returns_early [OF h, of testConfig "[5]"] refusingMeter_run
  show ?thesis by (simp add: refusingMeter_def)
qed

section \<open>Properties of the shutdown\<close>

subsection \<open>The invariant of the coordinator\<close>

lemma coordinatedI:
  assumes "ctxDone s = (CtxCancel \<in> set (events s))"
    and "filter (\<lambda>e. e \<in> set teardown) (beforeCancel s) = []"
    and "wgCount s = waiting s"
    and "mainReturned s \<Longrightarrow> wgCount s = 0"
    and "listenerOk s"
  shows "coordinated s"
  using assms by (simp add: coordinated_def)

lemma coordinatedD:
  assumes "coordinated s"
  shows "ctxDone s = (CtxCancel \<in> set (events s))"
    and "filter (\<lambda>e. e \<in> set teardown) (beforeCancel s) = []"
    and "wgCount s = waiting s"
    and "mainReturned s \<Longrightarrow> wgCount s = 0"
    and "listenerOk s"
  using assms by (simp_all add: coordinated_def split: if_splits)

lemma started_coordinated: "coordinated started"
  by (simp add: coordinated_def started_def callbacksRun_def beforeCancel_def waiting_def
      listenerOk_def)

lemma snoc_before_cancel:
  "filter Q (takeWhile P xs) = [] \<Longrightarrow> \<not> Q e \<or> (\<exists>x \<in> set xs. \<not> P x) \<Longrightarrow>
     filter Q (takeWhile P (xs @ [e])) = []"
  by (induction xs) auto

lemma takeWhile_until: "x \<notin> set xs \<Longrightarrow> takeWhile (\<lambda>e. e \<noteq> x) (xs @ [x]) = xs"
  by (induction xs) auto

lemma not_done_no_callbacks:
  assumes "listenerOk s" and "\<not> ctxDone s"
  shows "callbacksRun s = []"
  using assms by (cases "listenerPc s") (simp_all add: listenerOk_def)

lemma cancel_fields [simp]:
  "listenerPc (cancel s) = listenerPc s" "interruptCh (cancel s) = interruptCh s"
  "teardownCalls (cancel s) = teardownCalls s" "wgCount (cancel s) = wgCount s"
  "mainReturned (cancel s) = mainReturned s" "generatorReturned (cancel s) = generatorReturned s"
  "pprofReturned (cancel s) = pprofReturned s" "ctxDone (cancel s)"
  by (simp_all add: cancel_def)

lemma cancel_coordinated:
  assumes "coordinated s"
  shows "coordinated (cancel s)"
proof (cases "ctxDone s")
  case True
  with assms show ?thesis by (simp add: cancel_def)
next
  case False
  note inv = coordinatedD [OF assms]
  have nc: "callbacksRun s = []"
    using inv(5) False by (rule not_done_no_callbacks)
  have none: "CtxCancel \<notin> set (events s)"
    using inv(1) False by simp
  have ev: "events (cancel s) = events s @ [CtxCancel]"
    using False by (simp add: cancel_def)
  have cr: "callbacksRun (cancel s) = []"
    using nc by (simp add: callbacksRun_def ev teardown_def)
  show ?thesis
  proof (rule coordinatedI)
    show "ctxDone (cancel s) = (CtxCancel \<in> set (events (cancel s)))"
      by (simp add: ev)
    show "filter (\<lambda>e. e \<in> set teardown) (beforeCancel (cancel s)) = []"
      using nc by (simp add: beforeCancel_def ev takeWhile_until [OF none] callbacksRun_def)
    show "wgCount (cancel s) = waiting (cancel s)"
      using inv(3) by (simp add: waiting_def)
    show "wgCount (cancel s) = 0" if "mainReturned (cancel s)"
      using that inv(4) by simp
    show "listenerOk (cancel s)"
      using inv(5) cr nc by (cases "listenerPc s") (simp_all add: listenerOk_def)
  qed
qed

lemma listenerOk_cong:
  assumes "listenerOk s" and "listenerPc s' = listenerPc s" and "teardownCalls s' = teardownCalls s"
    and "ctxDone s' = ctxDone s" and "callbacksRun s' = callbacksRun s"
  shows "listenerOk s'"
  using assms by (cases "listenerPc s") (simp_all add: listenerOk_def)

text \<open>A step that touches neither the context, the listener nor the events.\<close>

lemma coordinated_frame:
  assumes "coordinated s"
    and c: "ctxDone s' = ctxDone s" and e: "events s' = events s"
    and l: "listenerPc s' = listenerPc s"
    and t: "teardownCalls s' = teardownCalls s" and w: "wgCount s' = wgCount s"
    and g: "generatorReturned s' = generatorReturned s" and p: "pprofReturned s' = pprofReturned s"
    and m: "mainReturned s' = mainReturned s"
  shows "coordinated s'"
proof (rule coordinatedI)
  note inv = coordinatedD [OF assms(1)]
  show "ctxDone s' = (CtxCancel \<in> set (events s'))"
    using inv(1) by (simp add: c e)
  show "filter (\<lambda>e. e \<in> set teardown) (beforeCancel s') = []"
    using inv(2) by (simp add: beforeCancel_def e)
  show "wgCount s' = waiting s'"
    using inv(3) by (simp add: waiting_def w l g p)
  show "wgCount s' = 0" if "mainReturned s'"
    using that inv(4) by (simp add: m w)
  show "listenerOk s'"
    using inv(5) l t c by (rule listenerOk_cong) (simp add: callbacksRun_def e)
qed

text \<open>A goroutine other than the listener returns: \<^verbatim>\<open>wg.Done()\<close>.\<close>

lemma wgDone_events:
  assumes "coordinated s" and "events s' = events s @ [WgDone]"
  shows "filter (\<lambda>e. e \<in> set teardown) (beforeCancel s') = []"
    and "callbacksRun s' = callbacksRun s"
    and "(CtxCancel \<in> set (events s')) = (CtxCancel \<in> set (events s))"
proof -
  show "filter (\<lambda>e. e \<in> set teardown) (beforeCancel s') = []"
    unfolding beforeCancel_def assms(2)
    using coordinatedD(2) [OF assms(1)]
    by (intro snoc_before_cancel) (simp_all add: beforeCancel_def teardown_def)
  show "callbacksRun s' = callbacksRun s"
    by (simp add: callbacksRun_def assms(2) teardown_def)
  show "(CtxCancel \<in> set (events s')) = (CtxCancel \<in> set (events s))"
    by (simp add: assms(2))
qed

subsection \<open>Every step keeps the invariant\<close>

lemma handleTermination_coordinated:
  assumes "coordinated s" and "handleTermination teardown pick s = Some s'"
  shows "coordinated s'"
proof -
  note inv = coordinatedD [OF assms(1)]
  show ?thesis
  proof (cases "listenerPc s")
    case L_start
    with assms(2) have s': "s' = s\<lparr>listenerPc := L_select\<rparr>"
      by (simp add: handleTermination_def)
    show ?thesis
    proof (rule coordinatedI)
      show "ctxDone s' = (CtxCancel \<in> set (events s'))"
        using inv(1) by (simp add: s')
      show "filter (\<lambda>e. e \<in> set teardown) (beforeCancel s') = []"
        using inv(2) by (simp add: s' beforeCancel_def)
      show "wgCount s' = waiting s'"
        using inv(3) L_start by (simp add: s' waiting_def)
      show "wgCount s' = 0" if "mainReturned s'"
        using that inv(4) by (simp add: s')
      show "listenerOk s'"
        using inv(5) L_start by (simp add: s' listenerOk_def callbacksRun_def)
    qed
  next
    case L_select
    show ?thesis
    proof (cases "ctxDone s \<and> (interruptCh s = 0 \<or> \<not> pick)")
      case True
      with assms(2) L_select
      have s': "s' = s\<lparr>listenerPc := L_teardown teardown, teardownCalls := Suc (teardownCalls s)\<rparr>"
        by (simp add: handleTermination_def)
      show ?thesis
      proof (rule coordinatedI)
        show "ctxDone s' = (CtxCancel \<in> set (events s'))"
          using inv(1) by (simp add: s')
        show "filter (\<lambda>e. e \<in> set teardown) (beforeCancel s') = []"
          using inv(2) by (simp add: s' beforeCancel_def)
        show "wgCount s' = waiting s'"
          using inv(3) L_select by (simp add: s' waiting_def)
        show "wgCount s' = 0" if "mainReturned s'"
          using that inv(4) by (simp add: s')
        show "listenerOk s'"
          using inv(5) L_select True by (simp add: s' listenerOk_def callbacksRun_def)
      qed
    next
      case False
      with assms(2) L_select have s': "s' = cancel (s\<lparr>interruptCh := interruptCh s - 1\<rparr>)"
        by (auto simp: handleTermination_def split: if_splits)
      have "coordinated (s\<lparr>interruptCh := interruptCh s - 1\<rparr>)"
        using assms(1) by (rule coordinated_frame) simp_all
      then show ?thesis
        unfolding s' by (rule cancel_coordinated)
    qed
  next
    case (L_teardown cs)
    from inv(5) L_teardown have lt: "teardownCalls s = 1" "ctxDone s" "callbacksRun s @ cs = teardown"
      by (simp_all add: listenerOk_def)
    show ?thesis
    proof (cases cs)
      case Nil
      with assms(2) L_teardown
      have s': "s' = s\<lparr>listenerPc := L_returned, wgCount := wgCount s - 1,
                  events := events s @ [WgDone]\<rparr>"
        by (simp add: handleTermination_def)
      then have ev: "events s' = events s @ [WgDone]"
        by simp
      note wd = wgDone_events [OF assms(1) ev]
      show ?thesis
      proof (rule coordinatedI)
        show "ctxDone s' = (CtxCancel \<in> set (events s'))"
          unfolding wd(3) using inv(1) by (simp add: s')
        show "filter (\<lambda>e. e \<in> set teardown) (beforeCancel s') = []"
          by (rule wd(1))
        show "wgCount s' = waiting s'"
          using inv(3) L_teardown by (simp add: s' waiting_def)
        show "wgCount s' = 0" if "mainReturned s'"
          using that inv(3,4) L_teardown by (simp add: s' waiting_def split: if_splits)
        show "listenerOk s'"
          using lt Nil wd(2) by (simp add: listenerOk_def) (simp add: s')
      qed
    next
      case (Cons c rest)
      from lt(3) Cons have c: "c \<in> set teardown"
        by (metis in_set_conv_decomp)
      have s': "s' = s\<lparr>listenerPc := L_teardown rest, events := events s @ [c]\<rparr>"
        using assms(2) L_teardown Cons by (simp add: handleTermination_def)
      have cc: "CtxCancel \<in> set (events s)"
        using inv(1) lt(2) by simp
      have cnc: "c \<noteq> CtxCancel"
        using c by (auto simp: teardown_def)
      show ?thesis
      proof (rule coordinatedI)
        show "ctxDone s' = (CtxCancel \<in> set (events s'))"
          using inv(1) cc by (simp add: s')
        show "filter (\<lambda>e. e \<in> set teardown) (beforeCancel s') = []"
          unfolding beforeCancel_def s'
          using inv(2) cc by (simp add: beforeCancel_def snoc_before_cancel)
        show "wgCount s' = waiting s'"
          using inv(3) L_teardown by (simp add: s' waiting_def)
        show "wgCount s' = 0" if "mainReturned s'"
          using that inv(4) by (simp add: s')
        show "listenerOk s'"
          using lt Cons c by (simp add: listenerOk_def s' callbacksRun_def)
      qed
    qed
  next
    case L_returned
    with assms(2) show ?thesis
      by (simp add: handleTermination_def)
  qed
qed

lemma fire_coordinated:
  assumes "coordinated s" and "fire teardown a s = Some s'"
  shows "coordinated s'"
proof -
  from assms(2) have nm: "\<not> mainReturned s"
    by (auto simp: fire_def split: if_splits)
  note inv = coordinatedD [OF assms(1)]
  show ?thesis
  proof (cases a)
    case ExternalCancel
    with assms(2) nm have "s' = cancel s"
      by (simp add: fire_def)
    then show ?thesis
      using assms(1) by (simp add: cancel_coordinated)
  next
    case OsInterrupt
    with assms(2) nm have "s' = s\<lparr>interruptCh := min 1 (interruptCh s + 1)\<rparr>"
      by (simp add: fire_def split: if_splits)
    then show ?thesis
      using coordinated_frame [OF assms(1), of s'] by simp
  next
    case (ListenerStep pick)
    with assms(2) nm have "handleTermination teardown pick s = Some s'"
      by (simp add: fire_def)
    with assms(1) show ?thesis
      by (rule handleTermination_coordinated)
  next
    case GeneratorReturn
    with assms(2) nm have g: "\<not> generatorReturned s"
      and s': "s' = s\<lparr>generatorReturned := True, wgCount := wgCount s - 1,
                        events := events s @ [WgDone]\<rparr>"
      by (simp_all add: fire_def split: if_splits)
    show ?thesis
    proof (rule coordinatedI)
      have ev: "events s' = events s @ [WgDone]" by (simp add: s')
      note wd = wgDone_events [OF assms(1) ev]
      show "ctxDone s' = (CtxCancel \<in> set (events s'))"
        unfolding wd(3) using inv(1) by (simp add: s')
      show "filter (\<lambda>e. e \<in> set teardown) (beforeCancel s') = []"
        by (rule wd(1))
      show "wgCount s' = waiting s'"
        using inv(3) g by (simp add: s' waiting_def)
      show "wgCount s' = 0" if "mainReturned s'"
        using that nm by (simp add: s')
      show "listenerOk s'"
        using inv(5) _ _ _ wd(2) by (rule listenerOk_cong) (simp_all add: s')
    qed
  next
    case PprofReturn
    with assms(2) nm have g: "\<not> pprofReturned s"
      and s': "s' = s\<lparr>pprofReturned := True, wgCount := wgCount s - 1,
                        events := events s @ [WgDone]\<rparr>"
      by (simp_all add: fire_def split: if_splits)
    show ?thesis
    proof (rule coordinatedI)
      have ev: "events s' = events s @ [WgDone]" by (simp add: s')
      note wd = wgDone_events [OF assms(1) ev]
      show "ctxDone s' = (CtxCancel \<in> set (events s'))"
        unfolding wd(3) using inv(1) by (simp add: s')
      show "filter (\<lambda>e. e \<in> set teardown) (beforeCancel s') = []"
        by (rule wd(1))
      show "wgCount s' = waiting s'"
        using inv(3) g by (simp add: s' waiting_def)
      show "wgCount s' = 0" if "mainReturned s'"
        using that nm by (simp add: s')
      show "listenerOk s'"
        using inv(5) _ _ _ wd(2) by (rule listenerOk_cong) (simp_all add: s')
    qed
  next
    case MainReturn
    from assms(2) MainReturn nm have s': "s' = (cancel s)\<lparr>mainReturned := True\<rparr>"
      and w: "wgCount s = 0"
      by (simp_all add: fire_def split: if_splits)
    have cc: "coordinated (cancel s)"
      using assms(1) by (rule cancel_coordinated)
    note inv' = coordinatedD [OF cc]
    show ?thesis
    proof (rule coordinatedI)
      show "ctxDone s' = (CtxCancel \<in> set (events s'))"
        using inv'(1) by (simp add: s')
      show "filter (\<lambda>e. e \<in> set teardown) (beforeCancel s') = []"
        using inv'(2) by (simp add: s' beforeCancel_def)
      show "wgCount s' = waiting s'"
        using inv'(3) by (simp add: s' waiting_def)
      show "wgCount s' = 0" if "mainReturned s'"
        using w by (simp add: s')
      show "listenerOk s'"
        using inv'(5) by (rule listenerOk_cong) (simp_all add: s' callbacksRun_def)
    qed
  qed
qed

lemma run_coordinated:
  "coordinated s \<Longrightarrow> run teardown acts s = Some s' \<Longrightarrow> coordinated s'"
proof (induction acts arbitrary: s)
  case Nil
  then show ?case by simp
next
  case (Cons a acts)
  from Cons.prems(2) obtain s1 where s1: "fire teardown a s = Some s1" "run teardown acts s1 = Some s'"
    by (auto split: option.splits)
  from Cons.prems(1) s1(1) have "coordinated s1"
    by (rule fire_coordinated)
  then show ?case
    using s1(2) by (rule Cons.IH)
qed

subsection \<open>Teardown runs once, after the cancellation, in order\<close>

lemma reachable_coordinated:
  assumes "run teardown acts started = Some s"
  shows "coordinated s"
  using started_coordinated assms by (rule run_coordinated)

lemma listener_finishes:
  assumes "listenerPc s = L_select" and "ctxDone s \<or> 0 < interruptCh s" and "\<not> mainReturned s"
    and "teardownCalls s = 0"
  shows "\<exists>n\<le>7. \<exists>s'. run teardown (replicate n (ListenerStep False)) s = Some s' \<and>
           listenerPc s' = L_returned \<and> teardownCalls s' = 1"
proof (cases "ctxDone s")
  case True
  have "\<exists>s'. run teardown (replicate 6 (ListenerStep False)) s = Some s' \<and>
           listenerPc s' = L_returned \<and> teardownCalls s' = 1"
    using assms True
    by (simp add: numeral_eq_Suc fire_def handleTermination_def teardown_def)
  then show ?thesis
    by (intro exI [of _ 6]) simp
next
  case False
  with assms(2) have "0 < interruptCh s" by simp
  then have "\<exists>s'. run teardown (replicate 7 (ListenerStep False)) s = Some s' \<and>
           listenerPc s' = L_returned \<and> teardownCalls s' = 1"
    using assms False
    by (simp add: numeral_eq_Suc fire_def handleTermination_def teardown_def cancel_def)
  then show ?thesis
    by (intro exI [of _ 7]) simp
qed

text \<open>
  C4: in every run of the coordinator from the start of the three goroutines, whatever
  the order of external cancellations, interrupts and steps, \<^verbatim>\<open>teardown(ctx)\<close> has been
  called at most once, only with the context cancelled, and exactly once when the
  listener has returned (\<^verbatim>\<open>main\<close> returns only after that). An interrupt does what an
  external cancellation does: once the context is cancelled or an interrupt is pending
  at the \<^verbatim>\<open>select\<close>, the listener's own next steps, at most seven, cancel the context,
  run teardown once and return.
\<close>

theorem teardown_runs_once:
  assumes "run teardown acts started = Some s"
  shows "teardownCalls s \<le> 1 \<and>
     (teardownCalls s = 1 \<longrightarrow> ctxDone s) \<and>
     (listenerPc s = L_returned \<longrightarrow> teardownCalls s = 1) \<and>
     (mainReturned s \<longrightarrow> listenerPc s = L_returned) \<and>
     (listenerPc s = L_select \<and> (ctxDone s \<or> 0 < interruptCh s) \<longrightarrow>
        (\<exists>n\<le>7. \<exists>s'. run teardown (replicate n (ListenerStep False)) s = Some s' \<and>
           listenerPc s' = L_returned \<and> teardownCalls s' = 1))"
proof -
  note inv = coordinatedD [OF reachable_coordinated [OF assms]]
  have calls: "teardownCalls s \<le> 1" "teardownCalls s = 1 \<longrightarrow> ctxDone s"
    "listenerPc s = L_returned \<longrightarrow> teardownCalls s = 1"
    "listenerPc s = L_select \<longrightarrow> teardownCalls s = 0"
    using inv(5) by (cases "listenerPc s"; simp add: listenerOk_def)+
  have main: "mainReturned s \<longrightarrow> listenerPc s = L_returned"
    using inv(3,4) by (auto simp: waiting_def split: if_splits)
  have fin: "listenerPc s = L_select \<and> (ctxDone s \<or> 0 < interruptCh s) \<longrightarrow>
        (\<exists>n\<le>7. \<exists>s'. run teardown (replicate n (ListenerStep False)) s = Some s' \<and>
           listenerPc s' = L_returned \<and> teardownCalls s' = 1)"
  proof
    assume a: "listenerPc s = L_select \<and> (ctxDone s \<or> 0 < interruptCh s)"
    with main have "\<not> mainReturned s" by auto
    with a calls(4) show "\<exists>n\<le>7. \<exists>s'. run teardown (replicate n (ListenerStep False)) s = Some s' \<and>
           listenerPc s' = L_returned \<and> teardownCalls s' = 1"
      by (intro listener_finishes) simp_all
  qed
  from calls(1,2,3) main fin show ?thesis
    by (intro conjI)
qed

text \<open>
  C5: in every run, no teardown callback is among the events before the cancellation of
  the context; the callbacks called so far are a prefix of pprof server close, log
  provider shutdown, trace provider shutdown, meter provider shutdown (so each at most
  once and in that order); and when the listener has returned they are exactly these
  four.
\<close>

theorem teardown_order:
  assumes "run teardown acts started = Some s"
  shows "filter (\<lambda>e. e \<in> set teardown) (takeWhile (\<lambda>e. e \<noteq> CtxCancel) (events s)) = [] \<and>
     (\<exists>cs. filter (\<lambda>e. e \<in> set teardown) (events s) @ cs
        = [PprofClose, LogShutdown, TraceShutdown, MeterShutdown]) \<and>
     (listenerPc s = L_returned \<longrightarrow>
        filter (\<lambda>e. e \<in> set teardown) (events s)
          = [PprofClose, LogShutdown, TraceShutdown, MeterShutdown])"
proof -
  note inv = coordinatedD [OF reachable_coordinated [OF assms]]
  have a: "filter (\<lambda>e. e \<in> set teardown) (takeWhile (\<lambda>e. e \<noteq> CtxCancel) (events s)) = []"
    using inv(2) by (simp add: beforeCancel_def)
  have b: "\<exists>cs. callbacksRun s @ cs = teardown"
    using inv(5) by (cases "listenerPc s") (auto simp: listenerOk_def)
  have c: "listenerPc s = L_returned \<longrightarrow> callbacksRun s = teardown"
    using inv(5) by (auto simp: listenerOk_def)
  from a b c show ?thesis
    unfolding callbacksRun_def by (simp add: teardown_def)
qed

lemma racingShutdown_run:
  "\<exists>s. run teardown racingShutdown started = Some s \<and> listenerPc s = L_returned \<and>
     mainReturned s \<and> teardownCalls s = 1 \<and>
     events s = [WgDone, CtxCancel, PprofClose, WgDone, LogShutdown, TraceShutdown,
       MeterShutdown, WgDone]"
  by (simp add: racingShutdown_def started_def fire_def handleTermination_def teardown_def
      cancel_def)

lemma interrupt_run:
  "\<exists>s. run teardown [ListenerStep False, OsInterrupt] started = Some s \<and>
     listenerPc s = L_select \<and> interruptCh s = 1 \<and> \<not> ctxDone s"
  by (simp add: started_def fire_def handleTermination_def)

theorem teardown_runs_once_witness:
  "\<exists>s. run teardown [ListenerStep False, OsInterrupt] started = Some s \<and>
     listenerPc s = L_select \<and> 0 < interruptCh s \<and> teardownCalls s \<le> 1 \<and>
     (\<exists>n\<le>7. \<exists>s'. run teardown (replicate n (ListenerStep False)) s = Some s' \<and>
           listenerPc s' = L_returned \<and> teardownCalls s' = 1)"
proof -
  obtain s where s: "run teardown [ListenerStep False, OsInterrupt] started = Some s"
    "listenerPc s = L_select" "interruptCh s = 1"
    using interrupt_run by blast
  from teardown_runs_once [OF s(1)] s show ?thesis
    by (intro exI [of _ s]) simp
qed

theorem teardown_order_witness:
  "\<exists>s. run teardown racingShutdown started = Some s \<and> listenerPc s = L_returned \<and>
     events s = [WgDone, CtxCancel, PprofClose, WgDone, LogShutdown, TraceShutdown,
       MeterShutdown, WgDone] \<and>
     filter (\<lambda>e. e \<in> set teardown) (events s)
       = [PprofClose, LogShutdown, TraceShutdown, MeterShutdown]"
proof -
  obtain s where s: "run teardown racingShutdown started = Some s" "listenerPc s = L_returned"
    "events s = [WgDone, CtxCancel, PprofClose, WgDone, LogShutdown, TraceShutdown,
       MeterShutdown, WgDone]"
    using racingShutdown_run by blast
  from teardown_order [OF s(1)] s(2)
  have "filter (\<lambda>e. e \<in> set teardown) (events s)
       = [PprofClose, LogShutdown, TraceShutdown, MeterShutdown]"
    by blast
  with s show ?thesis
    by blast
qed

section \<open>Precedence of the sources and repeated calls\<close>

subsection \<open>One registration\<close>

lemma readField_writeField: "readField f (writeField g v c) = (if f = g then v else readField f c)"
  by (cases f; cases g) simp_all

lemma peek_poke: "peek p (poke q v s) = (if p = q then v else peek p s)"
  by (cases p; cases q) (auto simp: peek_def poke_def readField_writeField)

lemma peek_frame [simp]:
  "peek p (s\<lparr>stringVarCalls := x\<rparr>) = peek p s" "peek p (s\<lparr>formal := y\<rparr>) = peek p s"
  "peek p (s\<lparr>registeredFlags := z\<rparr>) = peek p s" "peek p (s\<lparr>parseCalls := n\<rparr>) = peek p s"
  "peek p (s\<lparr>environ := e\<rparr>) = peek p s"
  by (simp_all add: peek_def)

lemma flagFields_names:
  "(name, f) \<in> set flagFields \<Longrightarrow> take 1 name \<noteq> ''-'' \<and> CHR ''='' \<notin> set name \<and> map_of flagFields name = Some f"
  by (auto simp: flagFields_def)

lemma boundFlags_upd:
  assumes "(name, f) \<in> set flagFields"
  shows "(boundFlags cfg reg)(name \<mapsto> (cfg, f)) = boundFlags cfg (reg(name := True))"
  using flagFields_names [OF assms] by (auto simp: boundFlags_def fun_eq_iff)

lemma registerFlag_bound:
  assumes b: "formal s = boundFlags cfg (registeredFlags s)" and nf: "(name, f) \<in> set flagFields"
  shows "\<exists>s'. registerFlag name (cfg, f) usage s = Returns (None, s') \<and>
      formal s' = boundFlags cfg (registeredFlags s') \<and>
      registeredFlags s' = (registeredFlags s)(name := True) \<and>
      environ s' = environ s \<and> files s' = files s \<and> args s' = args s \<and>
      parseCalls s' = parseCalls s \<and>
      stringVarCalls s' = (if registeredFlags s name then stringVarCalls s else stringVarCalls s @ [name]) \<and>
      (\<forall>p. peek p s' = (if p = (cfg, f) \<and> (\<not> registeredFlags s name \<or> os_Getenv name s \<noteq> '''')
                         then os_Getenv name s else peek p s))"
proof (cases "registeredFlags s name")
  case True
  then have id: "(registeredFlags s)(name := True) = registeredFlags s"
    by (simp add: fun_eq_iff)
  show ?thesis
    using True b id by (simp add: registerFlag_def Let_def peek_poke)
next
  case False
  with b have undefined: "formal s name = None"
    by (simp add: boundFlags_def)
  note n = flagFields_names [OF nf]
  let ?d = "os_Getenv name s"
  let ?s1 = "(poke (cfg, f) ?d s)\<lparr>stringVarCalls := stringVarCalls s @ [name]\<rparr>"
  have sv: "flag_StringVar (cfg, f) name ?d usage s = Returns (?s1\<lparr>formal := (formal ?s1)(name \<mapsto> (cfg, f))\<rparr>)"
    using n undefined by (simp add: flag_StringVar_def Let_def)
  have fm: "(formal s)(name \<mapsto> (cfg, f)) = boundFlags cfg ((registeredFlags s)(name := True))"
    unfolding b by (rule boundFlags_upd [OF nf])
  show ?thesis
    using False fm by (simp add: registerFlag_def Let_def sv peek_poke)
qed

lemma registerFlag_boundD:
  assumes "formal s = boundFlags cfg (registeredFlags s)" and "(name, f) \<in> set flagFields"
    and "registerFlag name (cfg, f) usage s = Returns (e, s')"
  shows "formal s' = boundFlags cfg (registeredFlags s')"
    and "registeredFlags s' = (registeredFlags s)(name := True)"
    and "environ s' = environ s" and "files s' = files s" and "args s' = args s"
    and "parseCalls s' = parseCalls s"
    and "stringVarCalls s' = (if registeredFlags s name then stringVarCalls s else stringVarCalls s @ [name])"
    and "peek p s' = (if p = (cfg, f) \<and> (\<not> registeredFlags s name \<or> os_Getenv name s \<noteq> '''')
                         then os_Getenv name s else peek p s)"
  using registerFlag_bound [OF assms(1,2), of usage] assms(3) by (cases p, auto)+

lemma os_Getenv_cong: "environ s' = environ s \<Longrightarrow> os_Getenv name s' = os_Getenv name s"
  by (simp add: os_Getenv_def)

subsection \<open>Parsing the command line\<close>

lemma map_of_rev_Cons:
  "map_of (rev ((n, v) # as)) name =
     (case map_of (rev as) name of None \<Rightarrow> (if n = name then Some v else None) | Some w \<Rightarrow> Some w)"
  by (simp add: map_add_def split: option.splits)

lemma parseArgs_peek:
  assumes "parseArgs as s = Returns s'"
    and "formal s name = Some p" and "\<forall>n. n \<noteq> name \<longrightarrow> formal s n \<noteq> Some p"
  shows "peek p s' = (case map_of (rev as) name of None \<Rightarrow> peek p s | Some v \<Rightarrow> v)"
  using assms
proof (induction as arbitrary: s)
  case Nil
  then show ?case by simp
next
  case (Cons a as)
  obtain n v where a: "a = (n, v)" by (cases a)
  from Cons.prems(1) a obtain q where q: "formal s n = Some q" "parseArgs as (poke q v s) = Returns s'"
    by (auto split: option.splits if_splits)
  have eq: "p = q \<longleftrightarrow> n = name" using q(1) Cons.prems(2,3) by auto
  have f: "formal (poke q v s) name = Some p" "\<forall>n. n \<noteq> name \<longrightarrow> formal (poke q v s) n \<noteq> Some p"
    using Cons.prems(2,3) by simp_all
  have ih: "peek p s' = (case map_of (rev as) name of None \<Rightarrow> peek p (poke q v s) | Some w \<Rightarrow> w)"
    by (rule Cons.IH [OF q(2) f])
  show ?case
  proof (cases "map_of (rev as) name")
    case None
    then show ?thesis using ih eq unfolding a map_of_rev_Cons by (simp add: peek_poke)
  next
    case (Some w)
    then show ?thesis using ih unfolding a map_of_rev_Cons by simp
  qed
qed

lemma parseArgs_Returns_iff:
  "(\<exists>s'. parseArgs as s = Returns s') \<longleftrightarrow> (\<forall>n \<in> fst ` set as. formal s n \<noteq> None)"
proof (induction as arbitrary: s)
  case Nil
  then show ?case by simp
next
  case (Cons a as)
  obtain n v where a: "a = (n, v)" by (cases a)
  show ?case
  proof (cases "formal s n")
    case None
    then show ?thesis using a by auto
  next
    case (Some p)
    then show ?thesis using a Cons.IH [of "poke p v s"] by simp
  qed
qed

subsection \<open>A whole call, from flags that are unregistered or bound to the Config\<close>

lemma boundFlags_inj:
  assumes "(name, f) \<in> set flagFields" and "reg name"
  shows "boundFlags cfg reg name = Some (cfg, f)"
    and "\<forall>n. n \<noteq> name \<longrightarrow> boundFlags cfg reg n \<noteq> Some (cfg, f)"
  using assms by (auto simp: boundFlags_def flagFields_def split: if_splits)

lemma boundFlags_dom:
  "boundFlags cfg reg n \<noteq> None \<longleftrightarrow> reg n \<and> n \<in> fst ` set flagFields"
  by (auto simp: boundFlags_def flagFields_def)

text \<open>The four registrations, from a state in which the flags are unregistered or bound to cfg.\<close>

lemma registrations_bound:
  assumes b: "formal s1 = boundFlags cfg (registeredFlags s1)"
    and r2: "registerFlag ''collectorgrpcurl'' (cfg, F_CollectorGRPCURL) u2 s1 = Returns (None, s2)"
    and r3: "registerFlag ''collectorhttpurl'' (cfg, F_CollectorHTTPURL) u3 s2 = Returns (None, s3)"
    and r4: "registerFlag ''servicename'' (cfg, F_ServiceName) u4 s3 = Returns (None, s4)"
    and r5: "registerFlag ''pprofurl'' (cfg, F_PprofURL) u5 s4 = Returns (None, s5)"
  shows "formal s5 = boundFlags cfg (registeredFlags s5)"
    and "registeredFlags s5 = (\<lambda>n. n \<in> fst ` set flagFields \<or> registeredFlags s1 n)"
    and "environ s5 = environ s1" and "files s5 = files s1" and "args s5 = args s1"
    and "parseCalls s5 = parseCalls s1"
    and "stringVarCalls s5 = stringVarCalls s1 @ filter (\<lambda>n. \<not> registeredFlags s1 n) (map fst flagFields)"
    and "(name, f) \<in> set flagFields \<Longrightarrow>
           peek (cfg, f) s5 = (if registeredFlags s1 name \<and> os_Getenv name s1 = ''''
                               then peek (cfg, f) s1 else os_Getenv name s1)"
proof -
  have m: "(''collectorgrpcurl'', F_CollectorGRPCURL) \<in> set flagFields"
    "(''collectorhttpurl'', F_CollectorHTTPURL) \<in> set flagFields"
    "(''servicename'', F_ServiceName) \<in> set flagFields"
    "(''pprofurl'', F_PprofURL) \<in> set flagFields"
    by (simp_all add: flagFields_def)
  note p2 = registerFlag_boundD [OF b m(1) r2]
  note p3 = registerFlag_boundD [OF p2(1) m(2) r3]
  note p4 = registerFlag_boundD [OF p3(1) m(3) r4]
  note p5 = registerFlag_boundD [OF p4(1) m(4) r5]
  have g: "os_Getenv n s4 = os_Getenv n s1" "os_Getenv n s3 = os_Getenv n s1"
    "os_Getenv n s2 = os_Getenv n s1" for n
    using p2(3) p3(3) p4(3) by (simp_all add: os_Getenv_def)
  show "formal s5 = boundFlags cfg (registeredFlags s5)"
    by (rule p5(1))
  show "registeredFlags s5 = (\<lambda>n. n \<in> fst ` set flagFields \<or> registeredFlags s1 n)"
    unfolding p5(2) p4(2) p3(2) p2(2) by (auto simp: fun_eq_iff flagFields_def)
  show "environ s5 = environ s1" "files s5 = files s1" "args s5 = args s1"
    "parseCalls s5 = parseCalls s1"
    using p2(3-6) p3(3-6) p4(3-6) p5(3-6) by simp_all
  show "stringVarCalls s5 = stringVarCalls s1 @ filter (\<lambda>n. \<not> registeredFlags s1 n) (map fst flagFields)"
    unfolding p5(7) p4(7) p3(7) p2(7) p4(2) p3(2) p2(2) by (simp add: flagFields_def)
  show "peek (cfg, f) s5 = (if registeredFlags s1 name \<and> os_Getenv name s1 = ''''
                               then peek (cfg, f) s1 else os_Getenv name s1)"
    if "(name, f) \<in> set flagFields"
    using that unfolding p5(8) p4(8) p3(8) p2(8) p4(2) p3(2) p2(2) g
    by (auto simp: flagFields_def)
qed

lemma loadConfig_unfold:
  assumes "\<forall>e. files s (if path = '''' then ''.env'' else path) \<noteq> Some (LoadFails e)"
  shows "loadConfig cfg path s =
        andThen (registerFlag ''collectorgrpcurl'' (cfg, F_CollectorGRPCURL)
                        ''the collector grpc endpoint'' (loaded (if path = '''' then ''.env'' else path) s)) (\<lambda>(e2, s2).
             andThen (registerFlag ''collectorhttpurl'' (cfg, F_CollectorHTTPURL)
                        ''the collector http endpoint'' s2) (\<lambda>(e3, s3).
             andThen (registerFlag ''servicename'' (cfg, F_ServiceName)
                        ''the service name'' s3) (\<lambda>(e4, s4).
             andThen (registerFlag ''pprofurl'' (cfg, F_PprofURL)
                        ''the pprof endpoint'' s4) (\<lambda>(e5, s5).
             andThen (flag_Parse s5) (\<lambda>s6.
             Returns (validate (heap s6 cfg), s6))))))"
proof -
  define p where "p = (if path = '''' then ''.env'' else path)"
  from assms have "\<forall>e. files s p \<noteq> Some (LoadFails e)"
    by (simp add: p_def)
  then show ?thesis
    unfolding loadConfig_def Let_def p_def [symmetric]
    by (cases "files s p"; cases "the (files s p)")
      (simp_all add: os_Stat_def loaded_def godotenv_Load_def)
qed

lemma loaded_twice:
  assumes "environ s1 = environ (loaded p s)" and "files s1 = files s"
  shows "environ (loaded p s1) = environ s1"
  using assms
  by (auto simp: loaded_def map_add_def fun_eq_iff split: option.splits dotenv.splits)

lemma loaded_keeps:
  "environ s k = Some v \<Longrightarrow> environ (loaded p s) k = Some v"
  by (auto simp: loaded_def map_add_def split: option.splits dotenv.splits)

lemma field_has_flag: "\<exists>name. (name, f) \<in> set flagFields"
  by (cases f) (auto simp: flagFields_def)

lemma validate_cong:
  assumes "\<And>f. readField f c = readField f c'"
  shows "validate c = validate c'"
  using assms [of F_CollectorGRPCURL] assms [of F_CollectorHTTPURL] assms [of F_ServiceName]
    assms [of F_PprofURL]
  by (simp add: validate_def)

lemma loadConfig_bound:
  assumes b: "formal s = boundFlags cfg (registeredFlags s)"
    and run: "loadConfig cfg path s = Returns (r, s')"
    and ok: "\<forall>e. files s (if path = '''' then ''.env'' else path) \<noteq> Some (LoadFails e)"
  shows "formal s' = boundFlags cfg (registeredFlags s')"
    and "registeredFlags s' = (\<lambda>n. n \<in> fst ` set flagFields \<or> registeredFlags s n)"
    and "environ s' = environ (loaded (if path = '''' then ''.env'' else path) s)"
    and "files s' = files s" and "args s' = args s"
    and "parseCalls s' = Suc (parseCalls s)"
    and "stringVarCalls s' = stringVarCalls s @ filter (\<lambda>n. \<not> registeredFlags s n) (map fst flagFields)"
    and "(name, f) \<in> set flagFields \<Longrightarrow>
           peek (cfg, f) s' =
             (case map_of (rev (args s)) name of
                Some v \<Rightarrow> v
              | None \<Rightarrow>
                  if registeredFlags s name \<and>
                     os_Getenv name (loaded (if path = '''' then ''.env'' else path) s) = ''''
                  then peek (cfg, f) s
                  else os_Getenv name (loaded (if path = '''' then ''.env'' else path) s))"
    and "r = validate (heap s' cfg)"
    and "fst ` set (args s) \<subseteq> fst ` set flagFields"
proof -
  let ?p = "if path = '''' then ''.env'' else path"
  from run obtain s2 s3 s4 s5 where merged:
      "registerFlag ''collectorgrpcurl'' (cfg, F_CollectorGRPCURL) ''the collector grpc endpoint''
         (loaded ?p s) = Returns (None, s2)"
      "registerFlag ''collectorhttpurl'' (cfg, F_CollectorHTTPURL) ''the collector http endpoint'' s2
         = Returns (None, s3)"
      "registerFlag ''servicename'' (cfg, F_ServiceName) ''the service name'' s3 = Returns (None, s4)"
      "registerFlag ''pprofurl'' (cfg, F_PprofURL) ''the pprof endpoint'' s4 = Returns (None, s5)"
      "flag_Parse s5 = Returns s'" "r = validate (heap s' cfg)"
  proof (cases rule: loadConfig_cases)
    case (failed e)
    with ok show ?thesis by simp
  next
    case (merged s2 s3 s4 s5)
    then show ?thesis using that by blast
  qed
  have b1: "formal (loaded ?p s) = boundFlags cfg (registeredFlags (loaded ?p s))"
    using b by simp
  note R = registrations_bound [OF b1 merged(1-4)]
  note F = flag_Parse_frame [OF merged(5), of cfg]
  let ?s5 = "s5\<lparr>parseCalls := Suc (parseCalls s5)\<rparr>"
  from merged(5) have pa: "parseArgs (args s5) ?s5 = Returns s'"
    by (simp add: flag_Parse_def)
  have reg5: "registeredFlags s5 n \<longleftrightarrow> n \<in> fst ` set flagFields \<or> registeredFlags s n" for n
    using R(2) by simp
  have pk: "peek (cfg, f) s' =
             (case map_of (rev (args s)) name of
                Some v \<Rightarrow> v
              | None \<Rightarrow>
                  if registeredFlags s name \<and> os_Getenv name (loaded ?p s) = ''''
                  then peek (cfg, f) s
                  else os_Getenv name (loaded ?p s))"
    if nf: "(name, f) \<in> set flagFields" for name f
  proof -
    have rn: "registeredFlags s5 name"
      using nf reg5 [of name] by force
    have f5: "formal ?s5 name = Some (cfg, f)"
      "\<forall>n. n \<noteq> name \<longrightarrow> formal ?s5 n \<noteq> Some (cfg, f)"
      using boundFlags_inj [of name f "registeredFlags s5" cfg] nf rn R(1) by simp_all
    have "peek (cfg, f) s' = (case map_of (rev (args s5)) name of None \<Rightarrow> peek (cfg, f) ?s5 | Some v \<Rightarrow> v)"
      by (rule parseArgs_peek [OF pa f5])
    then show ?thesis
      using R(8) [OF nf] R(5) by (simp add: peek_def split: option.splits)
  qed
  have dom: "fst ` set (args s) \<subseteq> fst ` set flagFields"
  proof
    fix n assume "n \<in> fst ` set (args s)"
    then have "n \<in> fst ` set (args s5)"
      using R(5) by simp
    moreover have "\<forall>n \<in> fst ` set (args s5). formal ?s5 n \<noteq> None"
      using pa parseArgs_Returns_iff [of "args s5" ?s5] by blast
    ultimately have "formal ?s5 n \<noteq> None"
      by blast
    then have "formal s5 n \<noteq> None"
      by simp
    then show "n \<in> fst ` set flagFields"
      unfolding R(1) boundFlags_dom by simp
  qed
  show "formal s' = boundFlags cfg (registeredFlags s')"
    using F R(1) by simp
  show "registeredFlags s' = (\<lambda>n. n \<in> fst ` set flagFields \<or> registeredFlags s n)"
    using F R(2) by simp
  show "environ s' = environ (loaded ?p s)"
    using F R(3) by simp
  show "files s' = files s" "args s' = args s"
    using F R(4,5) by simp_all
  show "parseCalls s' = Suc (parseCalls s)"
    using F R(6) by simp
  show "stringVarCalls s' = stringVarCalls s @ filter (\<lambda>n. \<not> registeredFlags s n) (map fst flagFields)"
    using F R(7) by simp
  show "peek (cfg, f) s' =
             (case map_of (rev (args s)) name of
                Some v \<Rightarrow> v
              | None \<Rightarrow>
                  if registeredFlags s name \<and> os_Getenv name (loaded ?p s) = ''''
                  then peek (cfg, f) s
                  else os_Getenv name (loaded ?p s))"
    if "(name, f) \<in> set flagFields"
    using that by (rule pk)
  show "r = validate (heap s' cfg)"
    by (rule merged(6))
  show "fst ` set (args s) \<subseteq> fst ` set flagFields"
    by (rule dom)
qed

lemma startProcess_bound: "formal (startProcess env fs as) = boundFlags cfg (registeredFlags (startProcess env fs as))"
  by (simp add: startProcess_def boundFlags_def fun_eq_iff)

lemma loadConfig_returns:
  assumes b: "formal s = boundFlags cfg (registeredFlags s)"
    and ok: "\<forall>e. files s (if path = '''' then ''.env'' else path) \<noteq> Some (LoadFails e)"
    and dom: "fst ` set (args s) \<subseteq> fst ` set flagFields"
  shows "\<exists>r s'. loadConfig cfg path s = Returns (r, s')"
proof -
  let ?p = "if path = '''' then ''.env'' else path"
  have m: "(''collectorgrpcurl'', F_CollectorGRPCURL) \<in> set flagFields"
    "(''collectorhttpurl'', F_CollectorHTTPURL) \<in> set flagFields"
    "(''servicename'', F_ServiceName) \<in> set flagFields"
    "(''pprofurl'', F_PprofURL) \<in> set flagFields"
    by (simp_all add: flagFields_def)
  have b1: "formal (loaded ?p s) = boundFlags cfg (registeredFlags (loaded ?p s))"
    using b by simp
  from registerFlag_bound [OF b1 m(1)] obtain s2 where
    r2: "registerFlag ''collectorgrpcurl'' (cfg, F_CollectorGRPCURL) ''the collector grpc endpoint''
         (loaded ?p s) = Returns (None, s2)"
    and b2: "formal s2 = boundFlags cfg (registeredFlags s2)"
    by blast
  from registerFlag_bound [OF b2 m(2)] obtain s3 where
    r3: "registerFlag ''collectorhttpurl'' (cfg, F_CollectorHTTPURL) ''the collector http endpoint'' s2
         = Returns (None, s3)"
    and b3: "formal s3 = boundFlags cfg (registeredFlags s3)"
    by blast
  from registerFlag_bound [OF b3 m(3)] obtain s4 where
    r4: "registerFlag ''servicename'' (cfg, F_ServiceName) ''the service name'' s3 = Returns (None, s4)"
    and b4: "formal s4 = boundFlags cfg (registeredFlags s4)"
    by blast
  from registerFlag_bound [OF b4 m(4)] obtain s5 where
    r5: "registerFlag ''pprofurl'' (cfg, F_PprofURL) ''the pprof endpoint'' s4 = Returns (None, s5)"
    by blast
  note R = registrations_bound [OF b1 r2 r3 r4 r5]
  let ?s5 = "s5\<lparr>parseCalls := Suc (parseCalls s5)\<rparr>"
  have "\<forall>n \<in> fst ` set (args s5). formal ?s5 n \<noteq> None"
  proof
    fix n assume "n \<in> fst ` set (args s5)"
    with dom R(5) have n: "n \<in> fst ` set flagFields"
      by auto
    then have "boundFlags cfg (registeredFlags s5) n \<noteq> None"
      unfolding boundFlags_dom R(2) by simp
    then show "formal ?s5 n \<noteq> None"
      using R(1) by simp
  qed
  then obtain s' where "parseArgs (args s5) ?s5 = Returns s'"
    using parseArgs_Returns_iff [of "args s5" ?s5] by blast
  then have "flag_Parse s5 = Returns s'"
    by (simp add: flag_Parse_def)
  then have "loadConfig cfg path s = Returns (validate (heap s' cfg), s')"
    unfolding loadConfig_unfold [OF ok] by (simp add: r2 r3 r4 r5)
  then show ?thesis
    by blast
qed

text \<open>
  C2: take a call of \<^verbatim>\<open>loadConfig\<close> that gets past the dotenv step and returns, in a
  process where each of the four flags is either not registered yet or bound to the
  Config given (the first call of a process, and every later call with the same Config).
  Then every variable the environment held before the call keeps its value, whatever
  the file says, and that value is what \<^verbatim>\<open>os.Getenv\<close> resolves; for each of the four keys,
  a flag passed on the command line gives the field its (last) value, whatever the
  environment and the file say; and without the flag a non-empty environment value is
  the field's value.
\<close>

theorem flag_over_env_over_file:
  assumes "formal s = boundFlags cfg (registeredFlags s)"
    and "loadConfig cfg path s = Returns (r, s')"
    and "\<forall>e. files s (if path = '''' then ''.env'' else path) \<noteq> Some (LoadFails e)"
    and "(name, f) \<in> set flagFields"
  shows "(\<forall>k v. environ s k = Some v \<longrightarrow> environ s' k = Some v) \<and>
     (\<forall>v. environ s name = Some v \<longrightarrow> os_Getenv name s' = v) \<and>
     (\<forall>v. map_of (rev (args s)) name = Some v \<longrightarrow> readField f (heap s' cfg) = v) \<and>
     (\<forall>v. map_of (rev (args s)) name = None \<and> environ s name = Some v \<and> v \<noteq> '''' \<longrightarrow>
          readField f (heap s' cfg) = v)"
proof -
  let ?p = "if path = '''' then ''.env'' else path"
  note P = loadConfig_bound [OF assms(1,2,3)]
  have env: "environ s k = Some v \<Longrightarrow> environ s' k = Some v" for k v
    unfolding P(3) by (rule loaded_keeps)
  have get: "environ s name = Some v \<Longrightarrow> os_Getenv name (loaded ?p s) = v" for v
    using loaded_keeps [of s name v ?p] by (simp add: os_Getenv_def)
  have get': "environ s name = Some v \<Longrightarrow> os_Getenv name s' = v" for v
    using env [of name v] by (simp add: os_Getenv_def)
  have fld: "readField f (heap s' cfg) = peek (cfg, f) s'"
    by (simp add: peek_def)
  have flag: "map_of (rev (args s)) name = Some v \<Longrightarrow> readField f (heap s' cfg) = v" for v
    unfolding fld P(8) [OF assms(4)] by simp
  have dflt: "map_of (rev (args s)) name = None \<and> environ s name = Some v \<and> v \<noteq> '''' \<Longrightarrow>
      readField f (heap s' cfg) = v" for v
    unfolding fld P(8) [OF assms(4)] using get [of v] by simp
  from env get' flag dflt show ?thesis
    by blast
qed

theorem flag_over_env_over_file_witness:
  "\<exists>r s'. loadConfig 0 '''' precedenceProcess = Returns (r, s') \<and>
     environ precedenceProcess ''servicename'' = Some ''env-name'' \<and>
     map_of (rev (args precedenceProcess)) ''servicename'' = None \<and>
     ServiceName (heap s' 0) = ''env-name'' \<and>
     environ precedenceProcess ''collectorgrpcurl'' = Some ''env-grpc:4317'' \<and>
     map_of (rev (args precedenceProcess)) ''collectorgrpcurl'' = Some ''flag-grpc:4317'' \<and>
     CollectorGRPCURL (heap s' 0) = ''flag-grpc:4317''"
proof -
  have b: "formal precedenceProcess = boundFlags 0 (registeredFlags precedenceProcess)"
    unfolding precedenceProcess_def by (rule startProcess_bound)
  have ok: "\<forall>e. files precedenceProcess (if '''' = '''' then ''.env'' else '''') \<noteq> Some (LoadFails e)"
    by (simp add: precedenceProcess_def startProcess_def)
  have dom: "fst ` set (args precedenceProcess) \<subseteq> fst ` set flagFields"
    by (simp add: precedenceProcess_def startProcess_def flagFields_def)
  from loadConfig_returns [OF b ok dom] obtain r s' where
    run: "loadConfig 0 '''' precedenceProcess = Returns (r, s')"
    by blast
  have m: "(''servicename'', F_ServiceName) \<in> set flagFields"
    "(''collectorgrpcurl'', F_CollectorGRPCURL) \<in> set flagFields"
    by (simp_all add: flagFields_def)
  have facts: "environ precedenceProcess ''servicename'' = Some ''env-name''"
    "map_of (rev (args precedenceProcess)) ''servicename'' = None"
    "environ precedenceProcess ''collectorgrpcurl'' = Some ''env-grpc:4317''"
    "map_of (rev (args precedenceProcess)) ''collectorgrpcurl'' = Some ''flag-grpc:4317''"
    by (simp_all add: precedenceProcess_def startProcess_def)
  from flag_over_env_over_file [OF b run ok m(1)] facts(1,2)
  have "ServiceName (heap s' 0) = ''env-name''"
    by simp
  moreover from flag_over_env_over_file [OF b run ok m(2)] facts(4)
  have "CollectorGRPCURL (heap s' 0) = ''flag-grpc:4317''"
    by simp
  ultimately show ?thesis
    using run facts by blast
qed

text \<open>
  C3 (as amended): a second call of \<^verbatim>\<open>loadConfig\<close> with the same Config and path, on the
  state the first call left, returns what the first call returned (so no error when the
  first gave none), calls \<^verbatim>\<open>flag.StringVar\<close> for no flag and leaves the flag set and the
  four fields as they were. Each call that gets past the dotenv step calls
  \<^verbatim>\<open>flag.Parse\<close> once more: the command line is parsed once per call.
\<close>

theorem second_call_same_result:
  assumes "formal s = boundFlags cfg (registeredFlags s)"
    and "loadConfig cfg path s = Returns (r, s1)"
  shows "\<exists>s2. loadConfig cfg path s1 = Returns (r, s2) \<and>
      formal s2 = formal s1 \<and> registeredFlags s2 = registeredFlags s1 \<and>
      stringVarCalls s2 = stringVarCalls s1 \<and>
      (\<forall>f. readField f (heap s2 cfg) = readField f (heap s1 cfg)) \<and>
      ((\<forall>e. files s (if path = '''' then ''.env'' else path) \<noteq> Some (LoadFails e)) \<longrightarrow>
         parseCalls s1 = Suc (parseCalls s) \<and> parseCalls s2 = Suc (parseCalls s1))"
proof (cases "\<forall>e. files s (if path = '''' then ''.env'' else path) \<noteq> Some (LoadFails e)")
  case False
  then obtain e where e: "files s (if path = '''' then ''.env'' else path) = Some (LoadFails e)"
    by blast
  from loadConfig_load_fails [OF e, of cfg] assms(2)
  have "s1 = s" "loadConfig cfg path s = Returns (r, s)"
    by simp_all
  with False show ?thesis
    by simp
next
  case True
  let ?p = "if path = '''' then ''.env'' else path"
  note P = loadConfig_bound [OF assms(1,2) True]
  have ok1: "\<forall>e. files s1 ?p \<noteq> Some (LoadFails e)"
    using True P(4) by simp
  have dom1: "fst ` set (args s1) \<subseteq> fst ` set flagFields"
    using P(10) P(5) by simp
  from loadConfig_returns [OF P(1) ok1 dom1] obtain r2 s2 where
    run2: "loadConfig cfg path s1 = Returns (r2, s2)"
    by blast
  note Q = loadConfig_bound [OF P(1) run2 ok1]
  have reg1: "registeredFlags s1 n" if "n \<in> fst ` set flagFields" for n
    using that P(2) by simp
  have env1: "environ (loaded ?p s1) = environ s1"
    using P(3) P(4) by (rule loaded_twice)
  have get1: "os_Getenv n (loaded ?p s1) = os_Getenv n (loaded ?p s)" for n
    using env1 P(3) by (simp add: os_Getenv_def)
  have same: "peek (cfg, f) s2 = peek (cfg, f) s1" if nf: "(name, f) \<in> set flagFields" for name f
  proof -
    have rn: "registeredFlags s1 name"
      using nf by (intro reg1) force
    show ?thesis
      unfolding Q(8) [OF nf] P(8) [OF nf] P(5) get1 using rn
      by (simp split: option.splits)
  qed
  have fields: "readField f (heap s2 cfg) = readField f (heap s1 cfg)" for f
    using field_has_flag [of f] same [of _ f] by (auto simp: peek_def)
  have "r2 = r"
    unfolding Q(9) P(9) using fields by (rule validate_cong)
  moreover have "registeredFlags s2 = registeredFlags s1"
    unfolding Q(2) P(2) by (simp add: fun_eq_iff)
  moreover from this have "formal s2 = formal s1"
    unfolding Q(1) P(1) by simp
  moreover have "stringVarCalls s2 = stringVarCalls s1"
    unfolding Q(7) using reg1 by (simp add: filter_empty_conv)
  ultimately show ?thesis
    using run2 fields P(6) Q(6) by simp
qed

lemma testEnv_first_call:
  "\<exists>s1. loadConfig 0 '''' (startProcess testEnv Map.empty []) = Returns (None, s1) \<and>
     stringVarCalls s1 = [''collectorgrpcurl'', ''collectorhttpurl'', ''servicename'', ''pprofurl''] \<and>
     parseCalls s1 = 1"
  by (simp add: run_defs validate_def errors_Join_def)

theorem second_call_same_result_witness:
  "\<exists>s1 s2. loadConfig 0 '''' (startProcess testEnv Map.empty []) = Returns (None, s1) \<and>
     loadConfig 0 '''' s1 = Returns (None, s2) \<and>
     stringVarCalls s2 = [''collectorgrpcurl'', ''collectorhttpurl'', ''servicename'', ''pprofurl''] \<and>
     parseCalls s2 = 2"
proof -
  obtain s1 where s1: "loadConfig 0 '''' (startProcess testEnv Map.empty []) = Returns (None, s1)"
    "stringVarCalls s1 = [''collectorgrpcurl'', ''collectorhttpurl'', ''servicename'', ''pprofurl'']"
    "parseCalls s1 = 1"
    using testEnv_first_call by blast
  have ok: "\<forall>e. files (startProcess testEnv Map.empty []) (if '''' = '''' then ''.env'' else '''')
      \<noteq> Some (LoadFails e)"
    by (simp add: startProcess_def)
  from second_call_same_result [OF startProcess_bound s1(1)] ok obtain s2 where
    "loadConfig 0 '''' s1 = Returns (None, s2)" "stringVarCalls s2 = stringVarCalls s1"
    "parseCalls s2 = Suc (parseCalls s1)"
    by blast
  with s1 show ?thesis
    by (intro exI [of _ s1] exI [of _ s2]) simp
qed

text \<open>
  After two calls \<^verbatim>\<open>flag.Parse\<close> has run twice, not once; and when the second call is
  given another Config, the flags stay bound to the first one, so a configuration that
  was valid by its command line alone fails the second call with four field errors.
\<close>

theorem second_call_counterexample:
  "map_outcome (parseCalls \<circ> snd) (loadConfigTwice 0 0 '''' (startProcess testEnv Map.empty []))
     = Returns 2 \<and>
   map_outcome (map_prod reported reported \<circ> fst) (loadConfigTwice 0 1 '''' flagsOnlyProcess)
     = Returns ([], [''collector grpc endpoint required'', ''collector http endpoint required'',
         ''service name required'', ''pprof endpoint required''])"
  by (simp add: loadConfigTwice_def flagsOnlyProcess_def run_defs validate_def errors_Join_def
      reported_def)

end
